theory Spec2Isabelle
  imports Main "HOL-Library.Word" "HOL-Library.Char_ord" "HOL-Library.List_Lexorder"
    "HOL-Library.Sublist" "HOL-Library.AList"
begin

section \<open>Load harness: the periodic reporter\<close>

text \<open>
  The counters of the load harness are Go \<^verbatim>\<open>uint64\<close> cells updated with
  \<^verbatim>\<open>sync/atomic\<close>; they are modelled as 64-bit words, so that \<open>+\<close> and \<open>*\<close> wrap
  around as they do in Go.
\<close>

type_synonym uint64 = "64 word"

text \<open>
  The operator \<^verbatim>\<open>/\<close> on \<^verbatim>\<open>uint64\<close>: a divisor of zero is the run-time
  panic \<^verbatim>\<open>integer divide by zero\<close>, here \<open>None\<close>.
\<close>

definition go_div :: "uint64 \<Rightarrow> uint64 \<Rightarrow> uint64 option" where
  "go_div a b = (if b = 0 then None else Some (a div b))"

text \<open>
  \<^verbatim>\<open>var perc uint64; if s > 0 { perc = 100 * f / s }\<close>: the zero value of the
  declaration is what remains when the guard fails.
\<close>

definition percent :: "uint64 \<Rightarrow> uint64 \<Rightarrow> uint64 option" where
  "percent f s = (if s > 0 then go_div (100 * f) s else Some 0)"

section \<open>Authentication client\<close>

text \<open>
  A Go \<^verbatim>\<open>error\<close> value, as far as the harness looks at it: whether its dynamic
  type is \<^verbatim>\<open>*url.Error\<close> (then with the text of its \<^verbatim>\<open>Err\<close> field, \<open>None\<close> when
  that field is nil), or any other type, given by the name \<^verbatim>\<open>%T\<close> prints and the
  message.
\<close>

datatype go_error = UrlError "string option" | OtherError string string

record AuthResult =
  Username :: string
  Project :: string
  TokenID :: string

text \<open>
  What the identity service's client library hands back for one token-creation
  call: the error of the call and the three extractions. A Go pointer that may be
  nil is an \<open>option\<close>.
\<close>

record create_result =
  Err :: "go_error option"
  ExtractUser :: "go_error + string option"
  ExtractProject :: "go_error + string option"
  ExtractTokenID :: "go_error + string"

definition OpenStackEC2Auth :: "create_result \<Rightarrow> AuthResult option \<times> go_error option" where
  "OpenStackEC2Auth res =
     (case Err res of
        Some e \<Rightarrow> (None, Some e)
      | None \<Rightarrow>
         (case ExtractUser res of
            Inl e \<Rightarrow> (None, Some e)
          | Inr None \<Rightarrow> (None, Some (OtherError ''*errors.errorString'' ''empty user''))
          | Inr (Some user) \<Rightarrow>
             (case ExtractProject res of
                Inl e \<Rightarrow> (None, Some e)
              | Inr None \<Rightarrow>
                  (None, Some (OtherError ''*errors.errorString'' ''empty project scope''))
              | Inr (Some project) \<Rightarrow>
                 (case ExtractTokenID res of
                    Inl e \<Rightarrow> (None, Some e)
                  | Inr tokenID \<Rightarrow>
                      (Some \<lparr>Username = user, Project = project, TokenID = tokenID\<rparr>,
                       None)))))"

section \<open>Load harness\<close>

text \<open>What the harness writes: log lines and standard output, with the values printed.\<close>

datatype printed =
    WindowLine uint64 uint64 uint64
  | TotalLine uint64 uint64 uint64
  | ErrorLines "string \<rightharpoonup> uint64"
  | LogError go_error
  | LogUser string
  | LogProject string
  | Stdout string

datatype fate = Exited int | Panicked

text \<open>
  Where a worker goroutine running the closure \<^verbatim>\<open>auth\<close> stands: before its
  increment of \<^verbatim>\<open>ops\<close>, before the authentication call, after a failed call
  (holding \<^verbatim>\<open>res\<close> and \<^verbatim>\<open>err\<close>), before the tally of the error, after the
  error branch (holding \<^verbatim>\<open>res\<close>), before the receive from the limiter, returned.
\<close>

datatype wpc =
    W_AddOps
  | W_Auth
  | W_Failed "AuthResult option" go_error
  | W_Tally go_error
  | W_Ok "AuthResult option"
  | W_Release
  | W_Done

datatype wresult = Continue wpc | Exit int | Panic

datatype dpc = D_Send | D_Go

text \<open>
  Where the reporter goroutine stands: waiting for its timer, or holding the
  locals \<^verbatim>\<open>f\<close>, \<^verbatim>\<open>s\<close>, \<^verbatim>\<open>tS\<close>, \<^verbatim>\<open>tF\<close> it has read so far.
\<close>

datatype rpc =
    R_Wait
  | R_F uint64
  | R_FS uint64 uint64
  | R_FST uint64 uint64 uint64
  | R_All uint64 uint64 uint64 uint64

record config =
  debug :: bool
  showErr :: bool

text \<open>
  The state of the running harness: the shared counters, the tally of error
  categories, the number of elements in the buffer of the channel \<^verbatim>\<open>limiter\<close>,
  every worker spawned so far, the dispatch loop, the reporter, what has been
  printed, and how the process ended if it has.
\<close>

record harness =
  ops :: uint64
  fps :: uint64
  totalReq :: uint64
  totalErr :: uint64
  errs :: "string \<rightharpoonup> uint64"
  limiter :: nat
  workers :: "wpc list"
  dispatcher :: dpc
  reporter :: rpc
  out :: "printed list"
  fate :: "fate option"

fun errType :: "go_error \<Rightarrow> string" where
  "errType (UrlError (Some inner)) = inner"
| "errType (UrlError None) = ''*url.Error''"
| "errType (OtherError ty msg) = ty"

text \<open>\<^verbatim>\<open>errs[errType] += 1\<close>: a key that is missing reads as zero.\<close>

definition tally :: "string \<Rightarrow> (string \<rightharpoonup> uint64) \<Rightarrow> (string \<rightharpoonup> uint64)" where
  "tally k m = m(k \<mapsto> (case m k of None \<Rightarrow> 0 | Some v \<Rightarrow> v) + 1)"

text \<open>
  The part of \<^verbatim>\<open>auth\<close> that both harnesses share after the error branch: the
  debug lines, then the print of the token when there is no limiter. A field of
  a nil \<^verbatim>\<open>res\<close> is a nil-pointer dereference, which panics.
\<close>

definition auth_tail :: "config \<Rightarrow> bool \<Rightarrow> AuthResult option \<Rightarrow> harness \<Rightarrow> wresult \<times> harness" where
  "auth_tail cfg limiter_nil res h =
     (if debug cfg \<and> res = None then (Panic, h)
      else
        let h1 = (if debug cfg
                  then h\<lparr>out := out h @ [LogUser (Username (the res)), LogProject (Project (the res))]\<rparr>
                  else h)
        in if limiter_nil
           then (case res of
                   None \<Rightarrow> (Panic, h1)
                 | Some r \<Rightarrow> (Continue W_Done, h1\<lparr>out := out h1 @ [Stdout (TokenID r)]\<rparr>))
           else (Continue W_Release, h1))"

text \<open>
  One atomic step of a worker of the harness with totals and error categories.
  \<open>limiter_nil\<close> says that the closure was called with a nil channel;
  \<open>cr\<close> is what the identity service answers to this worker. \<open>None\<close>: the
  worker cannot move (it has returned, or its receive blocks).
\<close>

fun auth :: "config \<Rightarrow> bool \<Rightarrow> create_result \<Rightarrow> wpc \<Rightarrow> harness \<Rightarrow> (wresult \<times> harness) option" where
  "auth cfg limiter_nil cr W_AddOps h = Some (Continue W_Auth, h\<lparr>ops := ops h + 1\<rparr>)"
| "auth cfg limiter_nil cr W_Auth h =
     (case OpenStackEC2Auth cr of
        (res, Some e) \<Rightarrow> Some (Continue (W_Failed res e), h)
      | (res, None) \<Rightarrow> Some (Continue (W_Ok res), h))"
| "auth cfg limiter_nil cr (W_Failed res e) h =
     (let h1 = h\<lparr>fps := fps h + 1\<rparr>
      in if limiter_nil then Some (Exit 1, h1\<lparr>out := out h1 @ [LogError e]\<rparr>)
         else if showErr cfg then Some (Continue (W_Tally e), h1)
         else Some (Continue W_Release, h1))"
| "auth cfg limiter_nil cr (W_Tally e) h =
     Some (Continue W_Release, h\<lparr>errs := tally (errType e) (errs h)\<rparr>)"
| "auth cfg limiter_nil cr (W_Ok res) h = Some (auth_tail cfg limiter_nil res h)"
| "auth cfg limiter_nil cr W_Release h =
     (if \<not> limiter_nil \<and> 0 < limiter h
      then Some (Continue W_Done, h\<lparr>limiter := limiter h - 1\<rparr>) else None)"
| "auth cfg limiter_nil cr W_Done h = None"

text \<open>
  The same for the harness without totals, whose closure has no early return in
  its error branch and no tally: after a failure it goes on to the debug lines.
\<close>

fun auth_plain :: "config \<Rightarrow> bool \<Rightarrow> create_result \<Rightarrow> wpc \<Rightarrow> harness \<Rightarrow> (wresult \<times> harness) option" where
  "auth_plain cfg limiter_nil cr W_AddOps h = Some (Continue W_Auth, h\<lparr>ops := ops h + 1\<rparr>)"
| "auth_plain cfg limiter_nil cr W_Auth h =
     (case OpenStackEC2Auth cr of
        (res, Some e) \<Rightarrow> Some (Continue (W_Failed res e), h)
      | (res, None) \<Rightarrow> Some (Continue (W_Ok res), h))"
| "auth_plain cfg limiter_nil cr (W_Failed res e) h =
     (let h1 = h\<lparr>fps := fps h + 1\<rparr>
      in if limiter_nil then Some (Exit 1, h1\<lparr>out := out h1 @ [LogError e]\<rparr>)
         else Some (Continue (W_Ok res), h1))"
| "auth_plain cfg limiter_nil cr (W_Tally e) h = None"
| "auth_plain cfg limiter_nil cr (W_Ok res) h = Some (auth_tail cfg limiter_nil res h)"
| "auth_plain cfg limiter_nil cr W_Release h =
     (if \<not> limiter_nil \<and> 0 < limiter h
      then Some (Continue W_Done, h\<lparr>limiter := limiter h - 1\<rparr>) else None)"
| "auth_plain cfg limiter_nil cr W_Done h = None"

text \<open>
  One atomic step of the reporter of the harness with totals: the two swaps, the
  two additions (each returns the new value), then the two percentages and the
  lines. A panic in the goroutine of the reporter ends the process.
\<close>

fun report :: "config \<Rightarrow> rpc \<Rightarrow> harness \<Rightarrow> rpc \<times> harness" where
  "report cfg R_Wait h = (R_F (fps h), h\<lparr>fps := 0\<rparr>)"
| "report cfg (R_F f) h = (R_FS f (ops h), h\<lparr>ops := 0\<rparr>)"
| "report cfg (R_FS f s) h = (R_FST f s (totalReq h + s), h\<lparr>totalReq := totalReq h + s\<rparr>)"
| "report cfg (R_FST f s tS) h =
     (R_All f s tS (totalErr h + f), h\<lparr>totalErr := totalErr h + f\<rparr>)"
| "report cfg (R_All f s tS tF) h =
     (case percent f s of
        None \<Rightarrow> (R_All f s tS tF, h\<lparr>fate := Some Panicked\<rparr>)
      | Some perc \<Rightarrow>
         (case percent tF tS of
            None \<Rightarrow> (R_All f s tS tF, h\<lparr>fate := Some Panicked\<rparr>)
          | Some tPerc \<Rightarrow>
              (R_Wait,
               h\<lparr>out := out h @ [WindowLine s f perc, TotalLine tS tF tPerc]
                          @ (if showErr cfg then [ErrorLines (errs h)] else [])\<rparr>)))"

text \<open>The reporter of the harness without totals prints the window line only.\<close>

fun report_plain :: "rpc \<Rightarrow> harness \<Rightarrow> rpc \<times> harness" where
  "report_plain R_Wait h = (R_F (fps h), h\<lparr>fps := 0\<rparr>)"
| "report_plain (R_F f) h = (R_FS f (ops h), h\<lparr>ops := 0\<rparr>)"
| "report_plain (R_FS f s) h =
     (case percent f s of
        None \<Rightarrow> (R_FS f s, h\<lparr>fate := Some Panicked\<rparr>)
      | Some perc \<Rightarrow> (R_Wait, h\<lparr>out := out h @ [WindowLine s f perc]\<rparr>))"
| "report_plain r h = (r, h)"

text \<open>
  One firing of the timer while nothing else moves: the steps of the reporter in
  a row, from the wait for the timer back to it.
\<close>

definition firing :: "config \<Rightarrow> harness \<Rightarrow> harness" where
  "firing cfg h =
     (case report cfg R_Wait h of (r1, h1) \<Rightarrow>
      case report cfg r1 h1 of (r2, h2) \<Rightarrow>
      case report cfg r2 h2 of (r3, h3) \<Rightarrow>
      case report cfg r3 h3 of (r4, h4) \<Rightarrow>
      case report cfg r4 h4 of (r5, h5) \<Rightarrow> h5)"

definition firing_plain :: "harness \<Rightarrow> harness" where
  "firing_plain h =
     (case report_plain R_Wait h of (r1, h1) \<Rightarrow>
      case report_plain r1 h1 of (r2, h2) \<Rightarrow>
      case report_plain r2 h2 of (r3, h3) \<Rightarrow> h3)"

text \<open>
  Continuous mode, as an interleaving of atomic steps. The dispatch loop sends
  into the channel of capacity \<open>threads\<close> (which blocks while the buffer is
  full) and then starts a goroutine; any worker and the reporter may move at any
  time; a worker that exits or panics ends the process, after which nothing moves.
  \<open>worker\<close> is the closure each goroutine runs, called with the limiter.
\<close>

inductive harness_step ::
  "(create_result \<Rightarrow> wpc \<Rightarrow> harness \<Rightarrow> (wresult \<times> harness) option) \<Rightarrow>
   (rpc \<Rightarrow> harness \<Rightarrow> rpc \<times> harness) \<Rightarrow> nat \<Rightarrow> harness \<Rightarrow> harness \<Rightarrow> bool"
  for worker rep threads where
    send: "fate h = None \<Longrightarrow> dispatcher h = D_Send \<Longrightarrow> limiter h < threads \<Longrightarrow>
      harness_step worker rep threads h (h\<lparr>limiter := limiter h + 1, dispatcher := D_Go\<rparr>)"
  | spawn: "fate h = None \<Longrightarrow> dispatcher h = D_Go \<Longrightarrow>
      harness_step worker rep threads h (h\<lparr>workers := workers h @ [W_AddOps], dispatcher := D_Send\<rparr>)"
  | work: "fate h = None \<Longrightarrow> i < length (workers h) \<Longrightarrow>
      worker cr (workers h ! i) h = Some (Continue pc, h') \<Longrightarrow>
      harness_step worker rep threads h (h'\<lparr>workers := (workers h')[i := pc]\<rparr>)"
  | work_exit: "fate h = None \<Longrightarrow> i < length (workers h) \<Longrightarrow>
      worker cr (workers h ! i) h = Some (Exit n, h') \<Longrightarrow>
      harness_step worker rep threads h (h'\<lparr>fate := Some (Exited n)\<rparr>)"
  | work_panic: "fate h = None \<Longrightarrow> i < length (workers h) \<Longrightarrow>
      worker cr (workers h ! i) h = Some (Panic, h') \<Longrightarrow>
      harness_step worker rep threads h (h'\<lparr>fate := Some Panicked\<rparr>)"
  | tick: "fate h = None \<Longrightarrow> rep (reporter h) h = (r, h') \<Longrightarrow>
      harness_step worker rep threads h (h'\<lparr>reporter := r\<rparr>)"

definition harness_init :: harness where
  "harness_init =
     \<lparr>ops = 0, fps = 0, totalReq = 0, totalErr = 0, errs = Map.empty, limiter = 0,
      workers = [], dispatcher = D_Send, reporter = R_Wait, out = [], fate = None\<rparr>"

inductive reachable ::
  "(create_result \<Rightarrow> wpc \<Rightarrow> harness \<Rightarrow> (wresult \<times> harness) option) \<Rightarrow>
   (rpc \<Rightarrow> harness \<Rightarrow> rpc \<times> harness) \<Rightarrow> nat \<Rightarrow> harness \<Rightarrow> bool"
  for worker rep threads where
    init: "reachable worker rep threads harness_init"
  | step: "reachable worker rep threads h \<Longrightarrow> harness_step worker rep threads h h' \<Longrightarrow>
      reachable worker rep threads h'"

text \<open>The attempts in flight: the workers started that have not released their slot.\<close>

definition in_flight :: "harness \<Rightarrow> nat" where
  "in_flight h = length (filter (\<lambda>pc. pc \<noteq> W_Done) (workers h))"

text \<open>
  The slot discipline: every worker in flight, and a dispatch loop that has sent
  but not yet started its goroutine, holds exactly one element of the channel.
\<close>

definition slot_inv :: "nat \<Rightarrow> harness \<Rightarrow> bool" where
  "slot_inv threads h \<longleftrightarrow>
     in_flight h + (if dispatcher h = D_Go then 1 else 0) = limiter h \<and> limiter h \<le> threads"

text \<open>
  Workers that have incremented \<^verbatim>\<open>ops\<close>, and workers past the authentication
  call and its error branch.
\<close>

definition past_count :: "wpc \<Rightarrow> bool" where
  "past_count pc \<longleftrightarrow> pc \<noteq> W_AddOps"

fun past_call :: "wpc \<Rightarrow> bool" where
  "past_call W_AddOps = False"
| "past_call W_Auth = False"
| "past_call (W_Failed res e) = False"
| "past_call (W_Ok res) = False"
| "past_call pc = True"

text \<open>The window counts the reporter has swapped out and not yet added to the totals.\<close>

fun pending_s :: "rpc \<Rightarrow> nat" where
  "pending_s (R_FS f s) = unat s"
| "pending_s r = 0"

fun pending_f :: "rpc \<Rightarrow> nat" where
  "pending_f (R_F f) = unat f"
| "pending_f (R_FS f s) = unat f"
| "pending_f (R_FST f s tS) = unat f"
| "pending_f r = 0"

text \<open>What the reporter holds in its locals once it has computed a total.\<close>

fun observed :: "rpc \<Rightarrow> harness \<Rightarrow> bool" where
  "observed (R_FST f s tS) h \<longleftrightarrow> s \<le> tS \<and> tS = totalReq h"
| "observed (R_All f s tS tF) h \<longleftrightarrow>
     s \<le> tS \<and> tS = totalReq h \<and> f \<le> tF \<and> tF = totalErr h"
| "observed r h \<longleftrightarrow> True"

definition count_inv :: "harness \<Rightarrow> bool" where
  "count_inv h \<longleftrightarrow>
     unat (totalReq h) + unat (ops h) + pending_s (reporter h)
       \<le> length (filter past_count (workers h)) \<and>
     unat (totalErr h) + unat (fps h) + pending_f (reporter h)
       \<le> length (filter past_call (workers h)) \<and>
     observed (reporter h) h"

text \<open>An answer of the identity service that rejects the credentials.\<close>

definition rejected :: create_result where
  "rejected =
     \<lparr>Err = Some (OtherError ''gophercloud.ErrDefault401'' ''Authentication failed''),
      ExtractUser = Inr None, ExtractProject = Inr None, ExtractTokenID = Inr []\<rparr>"

definition debug_on :: config where
  "debug_on = \<lparr>debug = True, showErr = False\<rparr>"

definition quiet :: config where
  "quiet = \<lparr>debug = False, showErr = False\<rparr>"

text \<open>
  The harness with one slot after its first worker has been started, and after
  that worker has failed to authenticate with debug output switched on.
\<close>

definition one_started :: harness where
  "one_started =
     \<lparr>ops = 0, fps = 0, totalReq = 0, totalErr = 0, errs = Map.empty, limiter = 1,
      workers = [W_AddOps], dispatcher = D_Send, reporter = R_Wait, out = [], fate = None\<rparr>"

definition one_crashed :: harness where
  "one_crashed =
     \<lparr>ops = 1, fps = 1, totalReq = 0, totalErr = 0, errs = Map.empty, limiter = 1,
      workers = [W_Ok None], dispatcher = D_Send, reporter = R_Wait, out = [],
      fate = Some Panicked\<rparr>"

text \<open>
  The same harness once its worker has counted itself and the reporter has
  swapped both window counters and added them to the totals, and after the
  reporter has printed.
\<close>

definition at_report :: harness where
  "at_report = one_started\<lparr>workers := [W_Auth], totalReq := 1, reporter := R_All 0 1 1 0\<rparr>"

definition reported :: harness where
  "reported = at_report\<lparr>reporter := R_Wait, out := [WindowLine 1 0 0, TotalLine 1 0 0]\<rparr>"

section \<open>Strings\<close>

text \<open>
  A Go string is a sequence of bytes; \<open>string\<close> is a list of 8-bit characters.
  The functions of package \<^verbatim>\<open>strings\<close> the program calls, as their documentation
  gives them.
\<close>

text \<open>\<^verbatim>\<open>strings.Contains(s, substr)\<close>.\<close>

fun Contains :: "string \<Rightarrow> string \<Rightarrow> bool" where
  "Contains [] substr = (substr = [])"
| "Contains (c # s) substr = (prefix substr (c # s) \<or> Contains s substr)"

text \<open>\<^verbatim>\<open>strings.Join(elems, sep)\<close>.\<close>

fun Join :: "string list \<Rightarrow> string \<Rightarrow> string" where
  "Join [] sep = []"
| "Join [x] sep = x"
| "Join (x # y # ys) sep = x @ sep @ Join (y # ys) sep"

text \<open>
  \<^verbatim>\<open>strings.ToLower\<close>, on the letters of ASCII (which header names are made of):
  every other byte is left as it is.
\<close>

definition lower_char :: "char \<Rightarrow> char" where
  "lower_char c =
     (case map_of (zip ''ABCDEFGHIJKLMNOPQRSTUVWXYZ'' ''abcdefghijklmnopqrstuvwxyz'') c of
        Some l \<Rightarrow> l
      | None \<Rightarrow> c)"

definition ToLower :: "string \<Rightarrow> string" where
  "ToLower s = map lower_char s"

text \<open>
  The width in bytes of the UTF-8 sequence a string starts with, read off its
  first byte as \<^verbatim>\<open>utf8.DecodeRuneInString\<close> does on well-formed UTF-8 (a byte
  that cannot start a sequence has width 1).
\<close>

definition rune_width :: "string \<Rightarrow> nat" where
  "rune_width s =
     (case s of
        [] \<Rightarrow> 1
      | c # _ \<Rightarrow>
         (let b = (of_char c :: nat);
              w = (if b < 0xC2 then 1 else if b < 0xE0 then 2 else if b < 0xF0 then 3
                   else if b < 0xF5 then 4 else 1)
          in if w \<le> length s then w else 1))"

text \<open>
  \<^verbatim>\<open>strings.Replace(s, old, new, -1)\<close> for a non-empty \<^verbatim>\<open>old\<close>: the leftmost
  occurrence is replaced, and the search goes on behind it.
\<close>

function replace_from :: "string \<Rightarrow> string \<Rightarrow> string \<Rightarrow> string" where
  "replace_from [] old new = []"
| "replace_from (c # s) old new =
     (if old \<noteq> [] \<and> prefix old (c # s)
      then new @ replace_from (drop (length old) (c # s)) old new
      else c # replace_from s old new)"
  by pat_completeness auto
termination
  by (relation "measure (\<lambda>(s, old, new). length s)") (auto simp: neq_Nil_conv)

text \<open>
  For an empty \<^verbatim>\<open>old\<close>, \<^verbatim>\<open>new\<close> is put in front of the string and behind each of
  its UTF-8 sequences.
\<close>

function replace_empty :: "string \<Rightarrow> string \<Rightarrow> string" where
  "replace_empty s new =
     (if s = [] then []
      else take (rune_width s) s @ new @ replace_empty (drop (rune_width s) s) new)"
  by pat_completeness auto
termination
  by (relation "measure (\<lambda>(s, new). length s)")
    (auto simp: rune_width_def Let_def split: list.splits)

definition Replace :: "string \<Rightarrow> string \<Rightarrow> string \<Rightarrow> string" where
  "Replace s old new =
     (if old = new then s
      else if old = [] then new @ replace_empty s new
      else replace_from s old new)"

section \<open>JSON documents\<close>

text \<open>
  What \<^verbatim>\<open>json.Unmarshal\<close> into an \<^verbatim>\<open>interface{}\<close> yields: nil, a bool, a
  float64 (kept as the text it is printed with), a string, a slice, or a map from
  strings. A map is a list of pairs with \<open>map_of\<close> for the lookup and
  \<open>AList.update\<close> for the assignment \<^verbatim>\<open>m[k] = v\<close>.
\<close>

datatype json =
    JNull
  | JBool bool
  | JNumber string
  | JString string
  | JArray "json list"
  | JObject "(string \<times> json) list"

type_synonym object = "(string \<times> json) list"

text \<open>The type assertion \<^verbatim>\<open>v, ok := m[k].(map[string]interface{})\<close>.\<close>

fun as_object :: "json option \<Rightarrow> object option" where
  "as_object (Some (JObject m)) = Some m"
| "as_object v = None"

text \<open>
  \<^verbatim>\<open>if v, ok := m[k].(map[string]interface{}); ok { ... }\<close> with a body that
  assigns into \<^verbatim>\<open>v\<close>: the map \<^verbatim>\<open>v\<close> is the one \<^verbatim>\<open>m\<close> holds, so the assignments
  are seen through \<^verbatim>\<open>m\<close>.
\<close>

definition with_object :: "string \<Rightarrow> (object \<Rightarrow> object) \<Rightarrow> object \<Rightarrow> object" where
  "with_object k body m =
     (case as_object (map_of m k) of
        Some v \<Rightarrow> AList.update k (JObject (body v)) m
      | None \<Rightarrow> m)"

definition mask :: json where
  "mask = JString ''***''"

text \<open>\<^verbatim>\<open>if _, ok := v[k]; ok { v[k] = "***" }\<close>.\<close>

definition mask_if_present :: "string \<Rightarrow> object \<Rightarrow> object" where
  "mask_if_present k v = (if map_of v k \<noteq> None then AList.update k mask v else v)"

text \<open>The three blocks of \<^verbatim>\<open>FormatJSON\<close> that mask known fields, in its order.\<close>

definition mask_auth :: "object \<Rightarrow> object" where
  "mask_auth data =
     with_object ''auth''
       (\<lambda>v. let v1 = with_object ''passwordCredentials'' (AList.update ''password'' mask) v;
                 v2 = with_object ''token'' (AList.update ''id'' mask) v1
             in with_object ''identity''
                  (\<lambda>v. let w1 = with_object ''password''
                                  (with_object ''user'' (AList.update ''password'' mask)) v;
                            w2 = with_object ''application_credential''
                                  (AList.update ''secret'' mask) w1
                        in with_object ''token'' (AList.update ''id'' mask) w2)
                  v2)
       data"

definition mask_authorization :: "string \<Rightarrow> object \<Rightarrow> object" where
  "mask_authorization access v =
     (case map_of v ''Authorization'' of
        Some (JString s) \<Rightarrow> AList.update ''Authorization'' (JString (Replace s access ''***'')) v
      | _ \<Rightarrow> v)"

definition mask_credentials :: "object \<Rightarrow> object" where
  "mask_credentials data =
     with_object ''credentials''
       (\<lambda>v. let access = (case map_of v ''access'' of Some (JString s) \<Rightarrow> s | _ \<Rightarrow> []);
                 v1 = mask_if_present ''access'' v;
                 v2 = mask_if_present ''body_hash'' v1
             in with_object ''headers'' (mask_authorization access) v2)
       data"

definition mask_token :: "object \<Rightarrow> object" where
  "mask_token data = with_object ''token'' (mask_if_present ''catalog'') data"

definition mask_known_fields :: "object \<Rightarrow> object" where
  "mask_known_fields data = mask_token (mask_credentials (mask_auth data))"

text \<open>
  The errors \<^verbatim>\<open>RoundTrip\<close> and \<^verbatim>\<open>FormatJSON\<close> hand out: an error of the wrapped
  transport or of a read, by its message, and the ones they build themselves
  with \<^verbatim>\<open>fmt.Errorf\<close>, each with the value formatted into it.
\<close>

datatype rt_error =
    Underlying string
  | RtIsNil
  | RetriesExhausted "rt_error option"
  | UnableToParse string
  | UnableToRemarshal string

text \<open>
  Package \<^verbatim>\<open>encoding/json\<close>, as far as \<^verbatim>\<open>FormatJSON\<close> uses it: the two library
  functions are parameters of the model.
\<close>

record encoding_json =
  Unmarshal :: "string \<Rightarrow> string + json"
  MarshalIndent :: "json \<Rightarrow> string + string"

text \<open>
  \<^verbatim>\<open>FormatJSON\<close> behind its first return: what it does with the parsed
  \<^verbatim>\<open>rawData\<close>, given the library's \<^verbatim>\<open>MarshalIndent\<close>.
\<close>

definition format_parsed ::
  "(json \<Rightarrow> string + string) \<Rightarrow> string \<Rightarrow> json \<Rightarrow> string \<times> rt_error option" where
  "format_parsed marshalIndent raw rawData =
     (case rawData of
        JObject data \<Rightarrow>
          (case marshalIndent (JObject (mask_known_fields data)) of
             Inl e \<Rightarrow> (raw, Some (UnableToRemarshal e))
           | Inr pretty \<Rightarrow> (pretty, None))
      | _ \<Rightarrow>
          (case marshalIndent rawData of
             Inl e \<Rightarrow> (raw, Some (UnableToRemarshal e))
           | Inr pretty \<Rightarrow> (pretty, None)))"

definition FormatJSON :: "encoding_json \<Rightarrow> string \<Rightarrow> string \<times> rt_error option" where
  "FormatJSON J raw =
     (case Unmarshal J raw of
        Inl e \<Rightarrow> (raw, Some (UnableToParse e))
      | Inr rawData \<Rightarrow> format_parsed (MarshalIndent J) raw rawData)"

text \<open>The document \<^verbatim>\<open>FormatJSON\<close> hands to \<^verbatim>\<open>MarshalIndent\<close>.\<close>

fun redact :: "json \<Rightarrow> json" where
  "redact (JObject data) = JObject (mask_known_fields data)"
| "redact v = v"

text \<open>
  What \<^verbatim>\<open>json.MarshalIndent(v, "", "  ")\<close> prints for a document whose strings
  are plain text, in which the library escapes nothing but the quote and the
  backslash: the keys of a map sorted, one member per line, two spaces per level.
\<close>

definition quote :: "string \<Rightarrow> string" where
  "quote s =
     CHR 0x22 # concat (map (\<lambda>c. if c = CHR 0x22 \<or> c = CHR 0x5C then [CHR 0x5C, c] else [c]) s)
       @ [CHR 0x22]"

definition indent :: "nat \<Rightarrow> string" where
  "indent n = replicate (2 * n) CHR '' ''"

fun pretty :: "nat \<Rightarrow> json \<Rightarrow> string" where
  "pretty n JNull = ''null''"
| "pretty n (JBool b) = (if b then ''true'' else ''false'')"
| "pretty n (JNumber t) = t"
| "pretty n (JString s) = quote s"
| "pretty n (JArray vs) =
     (if vs = [] then ''[]''
      else ''['' @ [CHR 0x0A] @ Join (map (\<lambda>v. indent (Suc n) @ pretty (Suc n) v) vs) ('','' @ [CHR 0x0A])
             @ [CHR 0x0A] @ indent n @ '']'')"
| "pretty n (JObject m) =
     (if m = [] then ''{}''
      else ''{'' @ [CHR 0x0A]
             @ Join (map (\<lambda>(k, t). indent (Suc n) @ quote k @ '': '' @ t)
                       (sort_key fst (map (\<lambda>(k, v). (k, pretty (Suc n) v)) m)))
                  ('','' @ [CHR 0x0A])
             @ [CHR 0x0A] @ indent n @ ''}'')"

definition plain_MarshalIndent :: "json \<Rightarrow> string + string" where
  "plain_MarshalIndent v = Inr (pretty 0 v)"

text \<open>The field a path of keys leads to, through maps only.\<close>

fun get_path :: "string list \<Rightarrow> json \<Rightarrow> json option" where
  "get_path [] v = Some v"
| "get_path (k # ks) (JObject m) = (case map_of m k of None \<Rightarrow> None | Some v \<Rightarrow> get_path ks v)"
| "get_path (k # ks) v = None"


text \<open>
  A function on maps leaves alone every field that neither lies at or below a
  path of \<open>S\<close> nor holds one.
\<close>

definition frames :: "string list set \<Rightarrow> (object \<Rightarrow> object) \<Rightarrow> bool" where
  "frames S f \<longleftrightarrow>
     (\<forall>m p. (\<forall>s\<in>S. \<not> prefix s p \<and> \<not> prefix p s) \<longrightarrow>
            get_path p (JObject (f m)) = get_path p (JObject m))"

text \<open>
  A token request signed with EC2 credentials whose access key also stands in
  the parameters of the signed request, and a request to the identity service
  with a password and fields beside it.
\<close>

definition signed_request :: object where
  "signed_request =
     [(''credentials'', JObject
        [(''access'', JString ''AK''),
         (''headers'', JObject [(''Authorization'', JString ''Credential=AK/x'')]),
         (''params'', JObject [(''AWSAccessKeyId'', JString ''AK'')])])]"


section \<open>Instrumented transport\<close>

text \<open>
  An \<^verbatim>\<open>http.Header\<close>: the values of each header name. Go ranges over the map
  in no fixed order; the order of the list stands for the order of one such range.
\<close>

type_synonym header = "(string \<times> string list) list"

text \<open>\<^verbatim>\<open>Header.Get\<close>, called with a key in canonical form.\<close>

definition Get :: "header \<Rightarrow> string \<Rightarrow> string" where
  "Get h key = (case map_of h key of Some (v # vs) \<Rightarrow> v | _ \<Rightarrow> [])"

text \<open>
  An \<^verbatim>\<open>io.ReadCloser\<close>: what its coming reads deliver, in order (bytes, or an
  error; the end of the list is the end of the stream), and whether it has been
  closed.
\<close>

datatype read_event = Data string | ReadFails string

record reader =
  pending :: "read_event list"
  closed :: bool

text \<open>
  \<^verbatim>\<open>io.Copy(&bs, original)\<close>: the bytes copied into the buffer, the reads left,
  and the error of the read that failed, if one did.
\<close>

fun io_Copy :: "read_event list \<Rightarrow> string \<times> read_event list \<times> rt_error option" where
  "io_Copy [] = ([], [], None)"
| "io_Copy (Data b # evs) = (case io_Copy evs of (bs, rest, e) \<Rightarrow> (b @ bs, rest, e))"
| "io_Copy (ReadFails e # evs) = ([], evs, Some (Underlying e))"

text \<open>\<^verbatim>\<open>ioutil.NopCloser(strings.NewReader(s))\<close>, and the bytes a stream delivers when read to its end.\<close>

definition NopCloser :: "string \<Rightarrow> reader" where
  "NopCloser s = \<lparr>pending = (if s = [] then [] else [Data s]), closed = False\<rparr>"

definition contents :: "reader \<Rightarrow> string option" where
  "contents r = (case io_Copy (pending r) of (bs, rest, None) \<Rightarrow> Some bs | _ \<Rightarrow> None)"

text \<open>The calls the transport makes on its \<^verbatim>\<open>ILogger\<close>, with the values formatted into each.\<close>

datatype message =
    URL_line string string
  | Headers_line string
  | Error_line rt_error
  | Body_line string
  | Request_not_JSON
  | Response_not_JSON
  | Retry_line int "rt_error option"
  | Exhausted_line
  | Code_line int

datatype entry = RequestPrintf message | ResponsePrintf message

datatype ilogger = StdLogger | NoopLogger

record request =
  Method :: string
  URL :: string
  Header :: header
  Body :: "reader option"

text \<open>A response of the wrapped transport; its body is never nil.\<close>

record response =
  StatusCode :: int
  RespHeader :: header
  RespBody :: reader

text \<open>
  The struct \<^verbatim>\<open>RoundTripper\<close>. The wrapped transport \<^verbatim>\<open>Rt\<close> answers its \<open>n\<close>-th
  call (counted from 0) for a request with a response or nil, and an error or
  nil.
\<close>

record RoundTripper =
  Rt :: "(nat \<Rightarrow> request \<Rightarrow> response option \<times> rt_error option) option"
  headers :: "header option"
  maskHeaders :: "string list option"
  FormatJSON_field :: "(string \<Rightarrow> string \<times> rt_error option) option"
  MaxRetries :: int
  Logger :: "ilogger option"

definition defaultSensitiveHeaders :: "string list" where
  "defaultSensitiveHeaders =
     [''x-auth-token'', ''x-auth-key'', ''x-service-token'', ''x-storage-token'',
      ''x-account-meta-temp-url-key'', ''x-account-meta-temp-url-key-2'',
      ''x-container-meta-temp-url-key'', ''x-container-meta-temp-url-key-2'',
      ''set-cookie'', ''x-subject-token'', ''authorization'']"

definition SetSensitiveHeaders :: "RoundTripper \<Rightarrow> string list \<Rightarrow> RoundTripper" where
  "SetSensitiveHeaders rt hs = rt\<lparr>maskHeaders := Some hs\<rparr>"

definition SetHeaders :: "RoundTripper \<Rightarrow> header \<Rightarrow> RoundTripper" where
  "SetHeaders rt hs = rt\<lparr>headers := Some hs\<rparr>"

definition hideSensitiveHeadersData :: "RoundTripper \<Rightarrow> header \<Rightarrow> string list" where
  "hideSensitiveHeadersData rt hs =
     (let maskHeaders = (case maskHeaders rt of None \<Rightarrow> defaultSensitiveHeaders | Some v \<Rightarrow> v)
      in map (\<lambda>(header, data).
                if ToLower header \<in> set maskHeaders then header @ '': '' @ ''***''
                else header @ '': '' @ Join data '' '')
           hs)"

text \<open>\<^verbatim>\<open>sort.Strings\<close> orders strings byte by byte, as the order on \<open>string\<close> does.\<close>

definition formatHeaders :: "RoundTripper \<Rightarrow> header \<Rightarrow> string \<Rightarrow> string" where
  "formatHeaders rt hs separator = Join (sort (hideSensitiveHeadersData rt hs)) separator"

text \<open>
  \<^verbatim>\<open>rt.log()\<close> is a logger that does nothing when \<^verbatim>\<open>rt.Logger\<close> is nil: then no
  call reaches a logger.
\<close>

definition logs :: "RoundTripper \<Rightarrow> entry list \<Rightarrow> entry list" where
  "logs rt es = (case Logger rt of None \<Rightarrow> [] | Some l \<Rightarrow> es)"

definition formatJSON :: "encoding_json \<Rightarrow> RoundTripper \<Rightarrow> string \<Rightarrow> string \<times> rt_error option" where
  "formatJSON J rt = (case FormatJSON_field rt of None \<Rightarrow> FormatJSON J | Some f \<Rightarrow> f)"

definition json_request :: "string \<Rightarrow> bool" where
  "json_request contentType \<longleftrightarrow>
     prefix ''application/json'' contentType \<or>
     (prefix ''application/'' contentType \<and> suffix ''-json-patch'' contentType)"

definition json_response :: "string \<Rightarrow> bool" where
  "json_response contentType \<longleftrightarrow> prefix ''application/json'' contentType"

text \<open>
  \<^verbatim>\<open>logRequest\<close> and \<^verbatim>\<open>logResponse\<close> return the stream to go on with, or an
  error; the model gives in addition the stream \<^verbatim>\<open>original\<close> as the call leaves
  it and the calls made on the logger.
\<close>

definition logRequest ::
  "encoding_json \<Rightarrow> RoundTripper \<Rightarrow> reader \<Rightarrow> string \<Rightarrow> (rt_error + reader) \<times> reader \<times> entry list"
  where
  "logRequest J rt original contentType =
     (if json_request contentType then
        (case io_Copy (pending original) of
           (bs, rest, Some e) \<Rightarrow> (Inl e, \<lparr>pending = rest, closed = True\<rparr>, [])
         | (bs, rest, None) \<Rightarrow>
            (case formatJSON J rt bs of
               (debugInfo, err) \<Rightarrow>
                 (Inr (NopCloser bs), \<lparr>pending = rest, closed = True\<rparr>,
                  logs rt ((case err of Some e \<Rightarrow> [RequestPrintf (Error_line e)] | None \<Rightarrow> [])
                           @ [RequestPrintf (Body_line debugInfo)]))))
      else (Inr original, original, logs rt [RequestPrintf Request_not_JSON]))"

definition logResponse ::
  "encoding_json \<Rightarrow> RoundTripper \<Rightarrow> reader \<Rightarrow> string \<Rightarrow> (rt_error + reader) \<times> reader \<times> entry list"
  where
  "logResponse J rt original contentType =
     (if json_response contentType then
        (case io_Copy (pending original) of
           (bs, rest, Some e) \<Rightarrow> (Inl e, \<lparr>pending = rest, closed = True\<rparr>, [])
         | (bs, rest, None) \<Rightarrow>
            (case formatJSON J rt bs of
               (debugInfo, err) \<Rightarrow>
                 (Inr (NopCloser bs), \<lparr>pending = rest, closed = True\<rparr>,
                  logs rt ((case err of Some e \<Rightarrow> [ResponsePrintf (Error_line e)] | None \<Rightarrow> [])
                           @ (if debugInfo \<noteq> [] then [ResponsePrintf (Body_line debugInfo)]
                              else [])))))
      else (Inr original, original, logs rt [ResponsePrintf Response_not_JSON]))"

text \<open>
  The retry loop of \<^verbatim>\<open>RoundTrip\<close>: \<open>retry\<close> is its counter, \<open>calls\<close> the number
  of calls made on the wrapped transport so far, \<open>(response, err)\<close> what the last
  call returned, \<open>lg\<close> the calls made on the logger so far.
\<close>

function retry_loop ::
  "RoundTripper \<Rightarrow> (nat \<Rightarrow> request \<Rightarrow> response option \<times> rt_error option) \<Rightarrow> request \<Rightarrow> int \<Rightarrow>
   nat \<Rightarrow> response option \<times> rt_error option \<Rightarrow> entry list \<Rightarrow>
   (response option \<times> rt_error option) \<times> nat \<times> entry list"
  where
  "retry_loop rt ort req retry calls (response, err) lg =
     (case response of
        Some r \<Rightarrow> ((Some r, err), calls, lg)
      | None \<Rightarrow>
         if retry > MaxRetries rt
         then ((None, Some (RetriesExhausted err)), calls,
               lg @ logs rt [ResponsePrintf Exhausted_line])
         else retry_loop rt ort req (retry + 1) (Suc calls) (ort calls req)
                (lg @ logs rt [ResponsePrintf (Retry_line retry err)]))"
  by pat_completeness auto
termination
  by (relation "measure (\<lambda>(rt, ort, req, retry, calls, r, lg). nat (MaxRetries rt + 1 - retry))")
    auto

text \<open>
  What one call of \<^verbatim>\<open>RoundTrip\<close> comes to: the response and the error it
  returns, the body the returned response holds, the number of calls it made on
  the wrapped transport, and the calls it made on the logger.
\<close>

record round_trip =
  Response :: "response option"
  ResponseBody :: "reader option"
  Error :: "rt_error option"
  Calls :: nat
  Logged :: "entry list"

text \<open>\<^verbatim>\<open>RoundTrip\<close> from the nil check of \<^verbatim>\<open>rt.Rt\<close> on.\<close>

definition delegate :: "encoding_json \<Rightarrow> RoundTripper \<Rightarrow> request \<Rightarrow> entry list \<Rightarrow> round_trip" where
  "delegate J rt req lg =
     (case Rt rt of
        None \<Rightarrow>
          \<lparr>Response = None, ResponseBody = None, Error = Some RtIsNil, Calls = 0, Logged = lg\<rparr>
      | Some ort \<Rightarrow>
         (case retry_loop rt ort req 1 1 (ort 0 req) lg of
            ((None, e), calls, lg1) \<Rightarrow>
              \<lparr>Response = None, ResponseBody = None, Error = e, Calls = calls, Logged = lg1\<rparr>
          | ((Some r, e), calls, lg1) \<Rightarrow>
              if Logger rt \<noteq> None then
                (let lg2 = lg1 @ logs rt
                       [ResponsePrintf (Code_line (StatusCode r)),
                        ResponsePrintf (Headers_line (formatHeaders rt (RespHeader r) [CHR 0x0A]))]
                 in case logResponse J rt (RespBody r) (Get (RespHeader r) ''Content-Type'') of
                      (Inl e', original, lg3) \<Rightarrow>
                        \<lparr>Response = Some r, ResponseBody = None, Error = Some e', Calls = calls,
                         Logged = lg2 @ lg3\<rparr>
                    | (Inr body, original, lg3) \<Rightarrow>
                        \<lparr>Response = Some r, ResponseBody = Some body, Error = None, Calls = calls,
                         Logged = lg2 @ lg3\<rparr>)
              else
                \<lparr>Response = Some r, ResponseBody = Some (RespBody r), Error = e, Calls = calls,
                 Logged = lg1\<rparr>))"

text \<open>The start of \<^verbatim>\<open>RoundTrip\<close>: \<^verbatim>\<open>request.Header[k] = v\<close> for every header of \<^verbatim>\<open>rt.headers\<close>.\<close>

definition inject :: "RoundTripper \<Rightarrow> request \<Rightarrow> request" where
  "inject rt request =
     (case headers rt of
        None \<Rightarrow> request
      | Some h \<Rightarrow> request\<lparr>Header := fold (\<lambda>(k, v). AList.update k v) h (Header request)\<rparr>)"

text \<open>
  \<^verbatim>\<open>RoundTrip\<close>. Its deferred \<^verbatim>\<open>Close\<close> of the request body acts on no value
  that it returns and is left out.
\<close>

definition RoundTrip :: "encoding_json \<Rightarrow> RoundTripper \<Rightarrow> request \<Rightarrow> round_trip" where
  "RoundTrip J rt request =
     (let req = inject rt request
      in if Logger rt \<noteq> None then
           (let lg = logs rt
                  [RequestPrintf (URL_line (Method req) (URL req)),
                   RequestPrintf (Headers_line (formatHeaders rt (Header req) [CHR 0x0A]))]
            in case Body req of
                 None \<Rightarrow> delegate J rt req lg
               | Some body \<Rightarrow>
                  (case logRequest J rt body (Get (Header req) ''Content-Type'') of
                     (Inl e, original, lg1) \<Rightarrow>
                       \<lparr>Response = None, ResponseBody = None, Error = Some e, Calls = 0,
                        Logged = lg @ lg1\<rparr>
                   | (Inr body', original, lg1) \<Rightarrow>
                       delegate J rt (req\<lparr>Body := Some body'\<rparr>) (lg @ lg1)))
         else delegate J rt req [])"



text \<open>
  Examples: a stand-in for the library that parses the one body \<open>signed_request\<close>
  and rejects every other text; a transport with no logger and one with the
  standard logger, each allowed one retry, whose wrapped transport fails to
  connect once and then answers 200 with an empty body; and a request without
  a body.
\<close>

definition sample_json :: encoding_json where
  "sample_json =
     \<lparr>Unmarshal = (\<lambda>raw. if raw = pretty 0 (JObject signed_request)
                          then Inr (JObject signed_request)
                          else Inl ''invalid character''),
      MarshalIndent = plain_MarshalIndent\<rparr>"

definition ok_response :: response where
  "ok_response = \<lparr>StatusCode = 200, RespHeader = [], RespBody = \<lparr>pending = [], closed = False\<rparr>\<rparr>"

definition flaky :: "nat \<Rightarrow> request \<Rightarrow> response option \<times> rt_error option" where
  "flaky n q = (if n = 0 then (None, Some (Underlying ''connection refused''))
                else (Some ok_response, None))"

definition silent_transport :: RoundTripper where
  "silent_transport =
     \<lparr>Rt = Some flaky, headers = None, maskHeaders = None, FormatJSON_field = None,
      MaxRetries = 1, Logger = None\<rparr>"

definition logging_transport :: RoundTripper where
  "logging_transport = silent_transport\<lparr>Logger := Some StdLogger\<rparr>"


text \<open>
  Two request bodies that arrive in two reads: one complete, one whose second
  read fails; and a request that posts the second one as JSON.
\<close>

definition chunked :: reader where
  "chunked = \<lparr>pending = [Data ''[1,'', Data ''2]''], closed = False\<rparr>"

definition broken :: reader where
  "broken = \<lparr>pending = [Data ''[1,'', ReadFails ''connection reset''], closed = False\<rparr>"

definition post_request :: request where
  "post_request =
     \<lparr>Method = ''POST'', URL = ''http://keystone/v3/ec2tokens'',
      Header = [(''Content-Type'', [''application/json''])], Body = Some broken\<rparr>"

text \<open>
  A harness in whose current window three attempts were started and one failed,
  after one attempt that failed in an earlier window.
\<close>

definition busy :: harness where
  "busy = harness_init\<lparr>ops := 3, fps := 1, totalReq := 1, totalErr := 1\<rparr>"

text \<open>The harness with one slot once its first worker has counted itself.\<close>

definition one_counted :: harness where
  "one_counted = one_started\<lparr>workers := [W_Auth], ops := 1\<rparr>"

text \<open>A harness whose total of requests stands at the largest value of its type.\<close>

definition saturated :: harness where
  "saturated = harness_init\<lparr>totalReq := 18446744073709551615\<rparr>"










section \<open>Properties of the reporter\<close>

lemma percent_eq: "percent f s = Some (if s = 0 then 0 else 100 * f div s)"
  by (simp add: percent_def go_div_def word_greater_zero_iff)

lemma percent_unat:
  "\<exists>p. percent f s = Some p \<and>
     unat p = (if s = 0 then 0 else ((100 * unat f) mod 2 ^ 64) div unat s)"
proof (cases "s = 0")
  case True
  then show ?thesis by (simp add: percent_eq)
next
  case False
  have "unat (100 * f div s) = unat (100 * f) div unat s"
    by (simp add: unat_div)
  moreover have "unat (100 * f) = (100 * unat f) mod 2 ^ 64"
    by (simp add: unat_word_ariths)
  ultimately show ?thesis using False by (simp add: percent_eq)
qed

section \<open>Properties of the load harness\<close>

lemma length_filter_update:
  "i < length xs \<Longrightarrow>
   length (filter P (xs[i := y])) + (if P (xs ! i) then 1 else 0) =
   length (filter P xs) + (if P y then 1 else 0)"
proof (induction xs arbitrary: i)
  case Nil
  then show ?case by simp
next
  case (Cons x xs)
  then show ?case by (cases i) auto
qed

lemma OpenStackEC2Auth_nil_iff_err:
  "(fst (OpenStackEC2Auth cr) = None) = (snd (OpenStackEC2Auth cr) \<noteq> None)"
  by (simp add: OpenStackEC2Auth_def split: option.split sum.split)

lemma unat_plus_small:
  fixes a b :: uint64
  assumes "unat a + unat b < 2 ^ 64"
  shows "unat (a + b) = unat a + unat b" and "a \<le> a + b" and "b \<le> a + b"
proof -
  show eq: "unat (a + b) = unat a + unat b"
    using assms by (simp add: unat_word_ariths)
  show "a \<le> a + b" and "b \<le> a + b"
    using eq by (simp_all add: word_le_nat_alt)
qed

subsection \<open>What one step of a worker and of the reporter touches\<close>

lemma auth_frame:
  assumes "auth cfg False cr pc h = Some (r, h')"
  shows "workers h' = workers h \<and> dispatcher h' = dispatcher h \<and> fate h' = fate h \<and>
         pc \<noteq> W_Done \<and>
         (case r of Continue pc' \<Rightarrow>
             (if pc' = W_Done then limiter h' + 1 = limiter h else limiter h' = limiter h)
          | _ \<Rightarrow> limiter h' = limiter h)"
  using assms
  by (cases pc) (auto simp: auth_tail_def Let_def split: prod.splits option.splits if_splits)

lemma auth_plain_frame:
  assumes "auth_plain cfg False cr pc h = Some (r, h')"
  shows "workers h' = workers h \<and> dispatcher h' = dispatcher h \<and> fate h' = fate h \<and>
         pc \<noteq> W_Done \<and>
         (case r of Continue pc' \<Rightarrow>
             (if pc' = W_Done then limiter h' + 1 = limiter h else limiter h' = limiter h)
          | _ \<Rightarrow> limiter h' = limiter h)"
  using assms
  by (cases pc) (auto simp: auth_tail_def Let_def split: prod.splits option.splits if_splits)

lemma report_frame:
  "report cfg r h = (r', h') \<Longrightarrow>
   workers h' = workers h \<and> dispatcher h' = dispatcher h \<and> limiter h' = limiter h \<and>
   fate h' = fate h"
  by (cases r) (auto simp: percent_eq)

lemma report_plain_frame:
  "report_plain r h = (r', h') \<Longrightarrow>
   workers h' = workers h \<and> dispatcher h' = dispatcher h \<and> limiter h' = limiter h \<and>
   fate h' = fate h"
  by (cases r) (auto simp: percent_eq)

lemma auth_no_exit: "auth cfg False cr pc h \<noteq> Some (Exit n, h')"
  by (cases pc) (auto simp: auth_tail_def Let_def split: prod.splits option.splits if_splits)

lemma auth_panic:
  "auth cfg False cr pc h = Some (Panic, h') \<Longrightarrow> h' = h \<and> pc = W_Ok None \<and> debug cfg"
  by (cases pc) (auto simp: auth_tail_def Let_def split: prod.splits option.splits if_splits)

lemma auth_never_Ok_nil:
  "auth cfg False cr pc h = Some (Continue pc', h') \<Longrightarrow> pc' \<noteq> W_Ok None"
proof (cases pc)
  case W_Auth
  assume a: "auth cfg False cr pc h = Some (Continue pc', h')"
  obtain res err where o: "OpenStackEC2Auth cr = (res, err)" by (cases "OpenStackEC2Auth cr")
  with OpenStackEC2Auth_nil_iff_err [of cr] have "(res = None) = (err \<noteq> None)" by simp
  with a W_Auth o show ?thesis by (cases err) auto
qed (auto simp: auth_tail_def Let_def split: prod.splits option.splits if_splits)

lemma auth_counts:
  assumes "auth cfg False cr pc h = Some (Continue pc', h')"
  shows "totalReq h' = totalReq h \<and> totalErr h' = totalErr h \<and> reporter h' = reporter h \<and>
     workers h' = workers h \<and>
     (if pc = W_AddOps then ops h' = ops h + 1 \<and> past_count pc'
      else ops h' = ops h \<and> past_count pc') \<and>
     (if past_call pc then fps h' = fps h \<and> past_call pc'
      else (fps h' = fps h \<and> (past_call pc' \<longrightarrow> (\<exists>r. pc = W_Ok r))) \<or>
           (fps h' = fps h + 1 \<and> past_call pc'))"
  using assms
  by (cases pc)
    (auto simp: auth_tail_def Let_def past_count_def split: prod.splits option.splits if_splits)

lemma auth_out:
  assumes "auth cfg False cr pc h = Some (Continue pc', h')"
  shows "out h' = out h \<or> (\<exists>u p. out h' = out h @ [LogUser u, LogProject p])"
  using assms
  by (cases pc) (auto simp: auth_tail_def Let_def split: prod.splits option.splits if_splits)

subsection \<open>The slot discipline is invariant\<close>

lemma slot_inv_step:
  assumes fr: "\<And>cr pc h r h'. worker cr pc h = Some (r, h') \<Longrightarrow>
      workers h' = workers h \<and> dispatcher h' = dispatcher h \<and> fate h' = fate h \<and>
         pc \<noteq> W_Done \<and>
         (case r of Continue pc' \<Rightarrow>
             (if pc' = W_Done then limiter h' + 1 = limiter h else limiter h' = limiter h)
          | _ \<Rightarrow> limiter h' = limiter h)"
    and rep: "\<And>r h r' h'. rep r h = (r', h') \<Longrightarrow>
      workers h' = workers h \<and> dispatcher h' = dispatcher h \<and> limiter h' = limiter h \<and>
      fate h' = fate h"
    and st: "harness_step worker rep threads h h'"
    and inv: "slot_inv threads h"
  shows "slot_inv threads h'"
  using st
proof (cases rule: harness_step.cases)
  case send
  then show ?thesis using inv by (auto simp: slot_inv_def in_flight_def)
next
  case spawn
  then show ?thesis using inv by (auto simp: slot_inv_def in_flight_def)
next
  case (work i cr pc h1)
  from fr [OF work(4)] work(3)
    length_filter_update [of i "workers h" "\<lambda>pc. pc \<noteq> W_Done" pc]
  show ?thesis using inv work(1)
    by (auto simp: slot_inv_def in_flight_def split: if_splits)
next
  case (work_exit i cr n h1)
  from fr [OF work_exit(4)] show ?thesis using inv work_exit(1)
    by (auto simp: slot_inv_def in_flight_def)
next
  case (work_panic i cr h1)
  from fr [OF work_panic(4)] show ?thesis using inv work_panic(1)
    by (auto simp: slot_inv_def in_flight_def)
next
  case (tick r h1)
  from rep [OF tick(3)] show ?thesis using inv tick(1)
    by (auto simp: slot_inv_def in_flight_def)
qed

lemma slot_inv_init: "slot_inv threads harness_init"
  by (simp add: slot_inv_def in_flight_def harness_init_def)

lemma slot_inv_reachable:
  "reachable (auth cfg False) (report cfg) threads h \<Longrightarrow> slot_inv threads h"
proof (induction rule: reachable.induct)
  case init
  show ?case by (rule slot_inv_init)
next
  case (step h h')
  show ?case
    by (rule slot_inv_step [OF _ _ step.hyps(2) step.IH]) (erule auth_frame, erule report_frame)
qed

lemma slot_inv_reachable_plain:
  "reachable (auth_plain cfg False) report_plain threads h \<Longrightarrow> slot_inv threads h"
proof (induction rule: reachable.induct)
  case init
  show ?case by (rule slot_inv_init)
next
  case (step h h')
  show ?case
    by (rule slot_inv_step [OF _ _ step.hyps(2) step.IH])
      (erule auth_plain_frame, erule report_plain_frame)
qed

text \<open>
  Claim C3. In continuous mode with \<open>threads\<close> slots, in every state the harness
  can reach, under any interleaving of the dispatch loop, the workers and the
  reporter, the number of workers started and not yet through their receive from
  the limiter is at most the number of elements in the channel, which is at most
  \<open>threads\<close>.
\<close>

theorem in_flight_bounded:
  assumes "reachable (auth cfg False) (report cfg) threads h"
  shows "in_flight h \<le> limiter h \<and> limiter h \<le> threads"
  using slot_inv_reachable [OF assms] by (auto simp: slot_inv_def split: if_splits)

lemma reachable_one_started: "reachable (auth cfg False) (report cfg) 1 one_started"
proof -
  let ?R = "reachable (auth cfg False) (report cfg) 1"
  let ?S = "harness_step (auth cfg False) (report cfg) 1"
  have r0: "?R harness_init" by (rule reachable.init)
  have "?S harness_init (harness_init\<lparr>limiter := limiter harness_init + 1, dispatcher := D_Go\<rparr>)"
    by (rule harness_step.send) (simp_all add: harness_init_def)
  then have r1: "?R (harness_init\<lparr>limiter := 1, dispatcher := D_Go\<rparr>)"
    using r0 by (auto intro: reachable.step simp: harness_init_def)
  let ?h1 = "harness_init\<lparr>limiter := 1, dispatcher := D_Go\<rparr>"
  have "?S ?h1 (?h1\<lparr>workers := workers ?h1 @ [W_AddOps], dispatcher := D_Send\<rparr>)"
    by (rule harness_step.spawn) (simp_all add: harness_init_def)
  then have "?R (?h1\<lparr>workers := workers ?h1 @ [W_AddOps], dispatcher := D_Send\<rparr>)"
    using r1 by (rule reachable.step [rotated])
  then show ?thesis by (simp add: harness_init_def one_started_def)
qed

theorem in_flight_bounded_witness:
  "reachable (auth quiet False) (report quiet) 1 one_started \<and> in_flight one_started = 1 \<and>
   in_flight one_started \<le> limiter one_started \<and> limiter one_started \<le> 1"
  using in_flight_bounded [OF reachable_one_started [of quiet]] reachable_one_started [of quiet]
  by (simp add: in_flight_def one_started_def)

subsection \<open>The counters\<close>

lemma count_inv_step:
  assumes st: "harness_step (auth cfg False) (report cfg) threads h h'"
    and inv: "count_inv h"
    and bound: "length (workers h') < 2 ^ 64"
  shows "count_inv h' \<and> totalReq h \<le> totalReq h' \<and> totalErr h \<le> totalErr h'"
  using st
proof (cases rule: harness_step.cases)
  case send
  then show ?thesis using inv by (cases "reporter h") (auto simp: count_inv_def)
next
  case spawn
  then show ?thesis using inv by (cases "reporter h") (auto simp: count_inv_def past_count_def)
next
  case (work i cr pc h1)
  let ?ws = "workers h"
  note ac = auth_counts [OF work(4)]
  have len: "length ?ws < 2 ^ 64" using bound work(1) ac by simp
  have c1: "length (filter past_count (?ws[i := pc])) + (if past_count (?ws ! i) then 1 else 0) =
     length (filter past_count ?ws) + (if past_count pc then 1 else 0)"
    using work(3) by (rule length_filter_update)
  have c2: "length (filter past_call (?ws[i := pc])) + (if past_call (?ws ! i) then 1 else 0) =
     length (filter past_call ?ws) + (if past_call pc then 1 else 0)"
    using work(3) by (rule length_filter_update)
  have b1': "length (filter past_count (?ws[i := pc])) \<le> length ?ws"
    and b2': "length (filter past_call (?ws[i := pc])) \<le> length ?ws"
    using length_filter_le [of past_count "?ws[i := pc]"]
      length_filter_le [of past_call "?ws[i := pc]"] by simp_all
  have r: "reporter h1 = reporter h" and w: "workers h1 = workers h"
    and tr: "totalReq h1 = totalReq h" and te: "totalErr h1 = totalErr h"
    using ac by simp_all
  have req: "unat (totalReq h) + unat (ops h1) + pending_s (reporter h)
       \<le> length (filter past_count (?ws[i := pc]))"
  proof (cases "?ws ! i = W_AddOps")
    case True
    then have o: "ops h1 = ops h + 1" and p: "past_count pc" using ac by simp_all
    have "unat (ops h) + unat (1 :: uint64) < 2 ^ 64"
      using inv b1' c1 True p len by (simp add: count_inv_def past_count_def)
    then have "unat (ops h + 1) = unat (ops h) + 1"
      using unat_plus_small(1) [of "ops h" 1] by simp
    then show ?thesis using inv c1 True p o by (simp add: count_inv_def past_count_def)
  next
    case False
    then have o: "ops h1 = ops h" and p: "past_count pc" using ac by simp_all
    show ?thesis using inv c1 False p o by (simp add: count_inv_def past_count_def)
  qed
  have err: "unat (totalErr h) + unat (fps h1) + pending_f (reporter h)
       \<le> length (filter past_call (?ws[i := pc]))"
  proof (cases "fps h1 = fps h")
    case True
    have "past_call (?ws ! i) \<longrightarrow> past_call pc" using ac by (auto split: if_splits)
    then have "length (filter past_call ?ws) \<le> length (filter past_call (?ws[i := pc]))"
      using c2 by (auto split: if_splits)
    then show ?thesis using inv True by (simp add: count_inv_def)
  next
    case False
    then have f: "fps h1 = fps h + 1" and p: "past_call pc" and np: "\<not> past_call (?ws ! i)"
      using ac by (auto split: if_splits)
    have "unat (fps h) + unat (1 :: uint64) < 2 ^ 64"
      using inv b2' c2 p np len by (simp add: count_inv_def)
    then have "unat (fps h + 1) = unat (fps h) + 1"
      using unat_plus_small(1) [of "fps h" 1] by simp
    then show ?thesis using inv c2 p np f by (simp add: count_inv_def)
  qed
  have obs: "observed (reporter h) (h1\<lparr>workers := (workers h1)[i := pc]\<rparr>)"
    using inv tr te by (cases "reporter h") (simp_all add: count_inv_def)
  show ?thesis
    unfolding work(1) using req err obs r w tr te by (simp add: count_inv_def)
next
  case (work_exit i cr n h1)
  then show ?thesis using auth_no_exit by blast
next
  case (work_panic i cr h1)
  then have "h1 = h" using auth_panic by blast
  then show ?thesis using inv work_panic(1) by (cases "reporter h") (auto simp: count_inv_def)
next
  case (tick r h1)
  have len: "length (workers h) < 2 ^ 64"
    using bound tick(1) report_frame [OF tick(3)] by simp
  have b1: "length (filter past_count (workers h)) \<le> length (workers h)"
    and b2: "length (filter past_call (workers h)) \<le> length (workers h)"
    by simp_all
  show ?thesis
  proof (cases "reporter h")
    case R_Wait
    then show ?thesis using inv tick by (auto simp: count_inv_def)
  next
    case (R_F f)
    then show ?thesis using inv tick by (auto simp: count_inv_def)
  next
    case (R_FS f s)
    have "unat (totalReq h) + unat (ops h) + unat s \<le> length (filter past_count (workers h))"
      using inv R_FS by (simp add: count_inv_def)
    then have "unat (totalReq h) + unat s < 2 ^ 64"
      using b1 len by linarith
    note u = unat_plus_small [OF this]
    show ?thesis using inv tick R_FS u by (auto simp: count_inv_def)
  next
    case (R_FST f s tS)
    have "unat (totalErr h) + unat (fps h) + unat f \<le> length (filter past_call (workers h))"
      using inv R_FST by (simp add: count_inv_def)
    then have "unat (totalErr h) + unat f < 2 ^ 64"
      using b2 len by linarith
    note u = unat_plus_small [OF this]
    show ?thesis using inv tick R_FST u by (auto simp: count_inv_def)
  next
    case (R_All f s tS tF)
    then show ?thesis using inv tick by (auto simp: count_inv_def percent_eq)
  qed
qed

lemma workers_grow:
  assumes "harness_step (auth cfg False) (report cfg) threads h h'"
  shows "length (workers h) \<le> length (workers h')"
  using assms
proof (cases rule: harness_step.cases)
  case (work i cr pc h1)
  then show ?thesis using auth_frame [OF work(4)] by simp
next
  case (work_exit i cr n h1)
  then show ?thesis using auth_frame [OF work_exit(4)] by simp
next
  case (work_panic i cr h1)
  then show ?thesis using auth_frame [OF work_panic(4)] by simp
next
  case (tick r h1)
  then show ?thesis using report_frame [OF tick(3)] by simp
qed simp_all

lemma count_inv_reachable:
  "reachable (auth cfg False) (report cfg) threads h \<Longrightarrow> length (workers h) < 2 ^ 64 \<Longrightarrow>
   count_inv h"
proof (induction rule: reachable.induct)
  case init
  show ?case by (simp add: count_inv_def harness_init_def)
next
  case (step h h')
  from workers_grow [OF step.hyps(2)] step.prems have "length (workers h) < 2 ^ 64" by simp
  then have "count_inv h" by (rule step.IH)
  with count_inv_step [OF step.hyps(2) _ step.prems] show ?case by simp
qed

lemma step_prints:
  assumes st: "harness_step (auth cfg False) (report cfg) threads h h'"
    and pr: "out h' = out h @ WindowLine s f p # TotalLine tS tF tp # rest"
  shows "reporter h = R_All f s tS tF \<and> percent f s = Some p \<and> percent tF tS = Some tp"
  using st
proof (cases rule: harness_step.cases)
  case send
  then show ?thesis using pr by simp
next
  case spawn
  then show ?thesis using pr by simp
next
  case (work i cr pc h1)
  then show ?thesis using pr auth_out [OF work(4)] by auto
next
  case (work_exit i cr n h1)
  then show ?thesis using auth_no_exit by blast
next
  case (work_panic i cr h1)
  then have "h1 = h" using auth_panic by blast
  then show ?thesis using pr work_panic(1) by simp
next
  case (tick r h1)
  then show ?thesis using pr by (cases "reporter h") (auto simp: percent_eq)
qed

text \<open>
  Claim C5, as the code has it. In continuous mode, as long as fewer than
  \<open>2 ^ 64\<close> workers have been started, no step of the harness (of a worker, of
  the dispatch loop or of the reporter) decreases the total of requests or the
  total of failures; and whenever the reporter prints its two lines, the totals
  it prints are the values the two total counters then hold, and each is at
  least the window count printed beside it.
\<close>

theorem totals_accumulate:
  assumes "reachable (auth cfg False) (report cfg) threads h"
    and "harness_step (auth cfg False) (report cfg) threads h h'"
    and "length (workers h') < 2 ^ 64"
  shows "totalReq h \<le> totalReq h' \<and> totalErr h \<le> totalErr h' \<and>
    (\<forall>s f p tS tF tp rest.
       out h' = out h @ WindowLine s f p # TotalLine tS tF tp # rest \<longrightarrow>
         s \<le> tS \<and> f \<le> tF \<and> tS = totalReq h' \<and> tF = totalErr h')"
proof -
  from workers_grow [OF assms(2)] assms(3) have "length (workers h) < 2 ^ 64" by simp
  with assms(1) have inv: "count_inv h" by (rule count_inv_reachable)
  from count_inv_step [OF assms(2) inv assms(3)]
  have mono: "totalReq h \<le> totalReq h' \<and> totalErr h \<le> totalErr h'"
    and inv': "count_inv h'" by simp_all
  have "s \<le> tS \<and> f \<le> tF \<and> tS = totalReq h' \<and> tF = totalErr h'"
    if pr: "out h' = out h @ WindowLine s f p # TotalLine tS tF tp # rest"
    for s f p tS tF tp rest
  proof -
    from step_prints [OF assms(2) pr]
    have r: "reporter h = R_All f s tS tF" and p: "percent f s = Some p" "percent tF tS = Some tp"
      by simp_all
    from inv r have o: "s \<le> tS \<and> f \<le> tF \<and> tS = totalReq h \<and> tF = totalErr h"
      by (auto simp: count_inv_def)
    from assms(2) have "totalReq h' = totalReq h \<and> totalErr h' = totalErr h"
    proof (cases rule: harness_step.cases)
      case (work i cr pc h1)
      then show ?thesis using auth_counts [OF work(4)] by simp
    next
      case (work_exit i cr n h1)
      then show ?thesis using auth_no_exit by blast
    next
      case (work_panic i cr h1)
      then have "h1 = h" using auth_panic by blast
      then show ?thesis using work_panic(1) by simp
    next
      case (tick r' h1)
      then show ?thesis using r p by auto
    qed simp_all
    with o show ?thesis by auto
  qed
  with mono show ?thesis by blast
qed

lemma percent_0_1: "percent 0 1 = Some 0"
  by (simp add: percent_eq)

lemma reachable_at_report: "reachable (auth quiet False) (report quiet) 1 at_report"
proof -
  let ?R = "reachable (auth quiet False) (report quiet) 1"
  let ?S = "harness_step (auth quiet False) (report quiet) 1"
  let ?w1 = "one_started\<lparr>workers := [W_Auth], ops := 1\<rparr>"
  let ?w2 = "?w1\<lparr>reporter := R_F 0\<rparr>"
  let ?w3 = "one_started\<lparr>workers := [W_Auth], reporter := R_FS 0 1\<rparr>"
  let ?w4 = "one_started\<lparr>workers := [W_Auth], totalReq := 1, reporter := R_FST 0 1 1\<rparr>"
  have "?S one_started ?w1"
    using harness_step.work [where h = one_started and i = 0 and pc = W_Auth
        and h' = "one_started\<lparr>ops := 1\<rparr>" and worker = "auth quiet False" and cr = rejected
        and rep = "report quiet" and threads = 1]
    by (simp add: one_started_def)
  with reachable_one_started have r1: "?R ?w1" by (rule reachable.step)
  have "?S ?w1 ?w2"
    using harness_step.tick [where h = ?w1 and r = "R_F 0" and h' = ?w1
        and worker = "auth quiet False" and rep = "report quiet" and threads = 1]
    by (simp add: one_started_def)
  with r1 have r2: "?R ?w2" by (rule reachable.step)
  have "?S ?w2 ?w3"
    using harness_step.tick [where h = ?w2 and r = "R_FS 0 1" and h' = "?w2\<lparr>ops := 0\<rparr>"
        and worker = "auth quiet False" and rep = "report quiet" and threads = 1]
    by (simp add: one_started_def)
  with r2 have r3: "?R ?w3" by (rule reachable.step)
  have "?S ?w3 ?w4"
    using harness_step.tick [where h = ?w3 and r = "R_FST 0 1 1" and h' = "?w3\<lparr>totalReq := 1\<rparr>"
        and worker = "auth quiet False" and rep = "report quiet" and threads = 1]
    by (simp add: one_started_def)
  with r3 have r4: "?R ?w4" by (rule reachable.step)
  have "?S ?w4 at_report"
    using harness_step.tick [where h = ?w4 and r = "R_All 0 1 1 0" and h' = ?w4
        and worker = "auth quiet False" and rep = "report quiet" and threads = 1]
    by (simp add: one_started_def at_report_def)
  with r4 show ?thesis by (rule reachable.step)
qed

lemma step_reported: "harness_step (auth quiet False) (report quiet) 1 at_report reported"
  using harness_step.tick [where h = at_report and r = R_Wait
      and h' = "at_report\<lparr>out := [WindowLine 1 0 0, TotalLine 1 0 0]\<rparr>"
      and worker = "auth quiet False" and rep = "report quiet" and threads = 1]
  by (simp add: one_started_def at_report_def reported_def quiet_def percent_0_1)

theorem totals_accumulate_witness:
  "reachable (auth quiet False) (report quiet) 1 at_report \<and>
   harness_step (auth quiet False) (report quiet) 1 at_report reported \<and>
   length (workers reported) < 2 ^ 64 \<and>
   totalReq at_report \<le> totalReq reported \<and> totalErr at_report \<le> totalErr reported \<and>
   out reported = out at_report @ [WindowLine 1 0 0, TotalLine 1 0 0] \<and>
   totalReq reported = 1 \<and> totalErr reported = 0"
proof -
  have len: "length (workers reported) < 2 ^ 64"
    by (simp add: reported_def at_report_def one_started_def)
  from totals_accumulate [OF reachable_at_report step_reported len]
  show ?thesis
    using reachable_at_report step_reported len
    by (simp add: reported_def at_report_def one_started_def)
qed

lemma reachable_one_counted: "reachable (auth quiet False) (report quiet) 1 one_counted"
proof -
  have "harness_step (auth quiet False) (report quiet) 1 one_started one_counted"
    using harness_step.work [where h = one_started and i = 0 and pc = W_Auth
        and h' = "one_started\<lparr>ops := 1\<rparr>" and worker = "auth quiet False" and cr = rejected
        and rep = "report quiet" and threads = 1]
    by (simp add: one_started_def one_counted_def)
  with reachable_one_started show ?thesis by (rule reachable.step)
qed

text \<open>
  The claim as stated fails between two firings: the totals are added to only
  when the reporter fires, so once the first worker has counted itself the
  window counter \<^verbatim>\<open>ops\<close> is 1 while \<^verbatim>\<open>totalReq\<close> is still 0. And the
  addition to a total wraps around at \<open>2 ^ 64\<close>.
\<close>

theorem totals_counterexample:
  "reachable (auth quiet False) (report quiet) 1 one_counted \<and>
   totalReq one_counted = 0 \<and> ops one_counted = 1 \<and> totalReq one_counted < ops one_counted \<and>
   totalReq saturated = 18446744073709551615 \<and>
   totalReq (snd (report quiet (R_FS 0 1) saturated)) = 0"
  using reachable_one_counted
  by (simp add: one_counted_def one_started_def saturated_def harness_init_def)

text \<open>
  Claim C10. The guard of each percentage keeps the division away from a zero
  divisor: \<open>percent\<close> never panics, and it is 0 when there were no attempts.
  Otherwise it is the quotient of 100 times the failures, computed in 64 bits,
  by the attempts; this is the integer quotient of 100 times the failures by the
  attempts as long as 100 times the failures is below \<open>2 ^ 64\<close>. One firing
  of the reporter swaps the window counters for zero, adds them to the totals
  and prints the window counts with their percentage and the new totals with
  theirs (the harness without totals: the window line only); and in every step
  of the running harness that prints the two lines, each percentage printed is
  the percentage of the counts printed with it.
\<close>

theorem reporter_percentages:
  "percent f s \<noteq> None \<and>
   percent f 0 = Some 0 \<and>
   (s \<noteq> 0 \<longrightarrow>
      (\<exists>p. percent f s = Some p \<and> unat p = ((100 * unat f) mod 2 ^ 64) div unat s \<and>
           (100 * unat f < 2 ^ 64 \<longrightarrow> unat p = 100 * unat f div unat s))) \<and>
   (\<exists>p tp. percent (fps h) (ops h) = Some p \<and>
      percent (totalErr h + fps h) (totalReq h + ops h) = Some tp \<and>
      firing cfg h =
        h\<lparr>fps := 0, ops := 0, totalReq := totalReq h + ops h, totalErr := totalErr h + fps h,
          out := out h @ [WindowLine (ops h) (fps h) p,
                          TotalLine (totalReq h + ops h) (totalErr h + fps h) tp]
                   @ (if showErr cfg then [ErrorLines (errs h)] else [])\<rparr>) \<and>
   (\<exists>p. percent (fps h) (ops h) = Some p \<and>
      firing_plain h = h\<lparr>fps := 0, ops := 0, out := out h @ [WindowLine (ops h) (fps h) p]\<rparr>) \<and>
   (harness_step (auth cfg False) (report cfg) threads h h' \<and>
    out h' = out h @ WindowLine s' f' p' # TotalLine tS tF tp' # rest \<longrightarrow>
      percent f' s' = Some p' \<and> percent tF tS = Some tp')"
proof -
  have 1: "percent f s \<noteq> None" and 2: "percent f 0 = Some 0"
    by (simp_all add: percent_eq)
  have 3: "s \<noteq> 0 \<longrightarrow>
      (\<exists>p. percent f s = Some p \<and> unat p = ((100 * unat f) mod 2 ^ 64) div unat s \<and>
           (100 * unat f < 2 ^ 64 \<longrightarrow> unat p = 100 * unat f div unat s))"
    using percent_unat [of f s] by auto
  have 4: "\<exists>p tp. percent (fps h) (ops h) = Some p \<and>
      percent (totalErr h + fps h) (totalReq h + ops h) = Some tp \<and>
      firing cfg h =
        h\<lparr>fps := 0, ops := 0, totalReq := totalReq h + ops h, totalErr := totalErr h + fps h,
          out := out h @ [WindowLine (ops h) (fps h) p,
                          TotalLine (totalReq h + ops h) (totalErr h + fps h) tp]
                   @ (if showErr cfg then [ErrorLines (errs h)] else [])\<rparr>"
    by (simp add: firing_def percent_eq)
  have 5: "\<exists>p. percent (fps h) (ops h) = Some p \<and>
      firing_plain h = h\<lparr>fps := 0, ops := 0, out := out h @ [WindowLine (ops h) (fps h) p]\<rparr>"
    by (simp add: firing_plain_def percent_eq)
  have 6: "harness_step (auth cfg False) (report cfg) threads h h' \<and>
    out h' = out h @ WindowLine s' f' p' # TotalLine tS tF tp' # rest \<longrightarrow>
      percent f' s' = Some p' \<and> percent tF tS = Some tp'"
    using step_prints by blast
  from 1 2 3 4 5 6 show ?thesis by (intro conjI)
qed

theorem reporter_percentages_witness:
  "(\<exists>p. percent 1 3 = Some p \<and> unat p = 33) \<and> percent 2 0 = Some 0 \<and>
   firing quiet busy =
     busy\<lparr>fps := 0, ops := 0, totalReq := 4, totalErr := 2,
       out := [WindowLine 3 1 33, TotalLine 4 2 50]\<rparr> \<and>
   firing_plain busy = busy\<lparr>fps := 0, ops := 0, out := [WindowLine 3 1 33]\<rparr> \<and>
   harness_step (auth quiet False) (report quiet) 1 at_report reported \<and>
   out reported = out at_report @ [WindowLine 1 0 0, TotalLine 1 0 0] \<and>
   percent 0 1 = Some 0"
proof -
  have o: "out reported = out at_report @ WindowLine 1 0 0 # TotalLine 1 0 0 # []"
    by (simp add: reported_def at_report_def one_started_def)
  have a: "(\<exists>p. percent 1 3 = Some p \<and> unat p = 33) \<and> percent 2 0 = Some 0"
    using reporter_percentages [of 1 3] reporter_percentages [of 2 0] by simp
  have p: "percent 1 3 = Some 33" "percent 2 4 = Some 50"
    by (simp_all add: percent_eq)
  have b: "firing quiet busy =
     busy\<lparr>fps := 0, ops := 0, totalReq := 4, totalErr := 2,
       out := [WindowLine 3 1 33, TotalLine 4 2 50]\<rparr> \<and>
   firing_plain busy = busy\<lparr>fps := 0, ops := 0, out := [WindowLine 3 1 33]\<rparr>"
    using reporter_percentages [of _ _ busy quiet] p
    by (simp add: busy_def harness_init_def quiet_def)
  have c: "percent 0 1 = Some 0"
    using reporter_percentages [of _ _ at_report quiet 1 reported 1 0 0 1 0 0 "[]"]
      step_reported o by simp
  from a b c step_reported o show ?thesis by simp
qed

text \<open>
  The claim as stated fails where 100 times the failures does not fit 64 bits:
  with \<open>2 ^ 63\<close> failures in \<open>2 ^ 63\<close> attempts the product wraps around to 0
  and the percentage computed is 0, while the integer quotient is 100.
\<close>

theorem reporter_percentages_counterexample:
  "percent 9223372036854775808 9223372036854775808 = Some 0 \<and>
   100 * unat (9223372036854775808 :: uint64) div unat (9223372036854775808 :: uint64) = 100 \<and>
   out (snd (report quiet (R_All 0 0 9223372036854775808 9223372036854775808) harness_init)) =
     [WindowLine 0 0 0, TotalLine 9223372036854775808 9223372036854775808 0]"
  by (simp add: percent_eq quiet_def harness_init_def)

subsection \<open>Failures of the authentication call\<close>

lemma not_fatal_step:
  assumes st: "harness_step (auth cfg False) (report cfg) threads h h'"
    and inv: "W_Ok None \<notin> set (workers h)"
  shows "W_Ok None \<notin> set (workers h') \<and> fate h' = None"
  using st
proof (cases rule: harness_step.cases)
  case send
  then show ?thesis using inv by simp
next
  case spawn
  then show ?thesis using inv by simp
next
  case (work i cr pc h1)
  have "set ((workers h)[i := pc]) \<subseteq> insert pc (set (workers h))"
    by (rule set_update_subset_insert)
  moreover have "pc \<noteq> W_Ok None" using work(4) by (rule auth_never_Ok_nil)
  ultimately have "W_Ok None \<notin> set ((workers h)[i := pc])" using inv by auto
  then show ?thesis using work(1,2) auth_frame [OF work(4)] by simp
next
  case (work_exit i cr n h1)
  then show ?thesis using auth_no_exit by blast
next
  case (work_panic i cr h1)
  then have "workers h ! i = W_Ok None" using auth_panic by blast
  then have "W_Ok None \<in> set (workers h)" using work_panic(3) by (metis nth_mem)
  then show ?thesis using inv by simp
next
  case (tick r h1)
  then show ?thesis using inv report_frame [OF tick(3)] by simp
qed

lemma not_fatal_reachable:
  "reachable (auth cfg False) (report cfg) threads h \<Longrightarrow>
   W_Ok None \<notin> set (workers h) \<and> fate h = None"
proof (induction rule: reachable.induct)
  case init
  show ?case by (simp add: harness_init_def)
next
  case (step h h')
  then show ?case using not_fatal_step by blast
qed

text \<open>
  The harness with totals and error categories never ends because of a failed
  authentication: in continuous mode no state it can reach has exited or
  panicked, whatever the debug and show-error settings and whatever the
  identity service answers.
\<close>

theorem continuous_never_fatal:
  assumes "reachable (auth cfg False) (report cfg) threads h"
  shows "fate h = None"
  using not_fatal_reachable [OF assms] by simp

theorem continuous_never_fatal_witness:
  "reachable (auth quiet False) (report quiet) 1 at_report \<and> fate at_report = None"
  using continuous_never_fatal [OF reachable_at_report] reachable_at_report by simp

lemma reachable_one_started_plain:
  "reachable (auth_plain cfg False) report_plain 1 one_started"
proof -
  let ?R = "reachable (auth_plain cfg False) report_plain 1"
  let ?S = "harness_step (auth_plain cfg False) report_plain 1"
  have r0: "?R harness_init" by (rule reachable.init)
  let ?h1 = "harness_init\<lparr>limiter := 1, dispatcher := D_Go\<rparr>"
  have "?S harness_init ?h1"
    using harness_step.send [where h = harness_init and threads = 1
        and worker = "auth_plain cfg False" and rep = report_plain]
    by (simp add: harness_init_def)
  with r0 have r1: "?R ?h1" by (rule reachable.step)
  have "?S ?h1 one_started"
    using harness_step.spawn [where h = ?h1 and threads = 1
        and worker = "auth_plain cfg False" and rep = report_plain]
    by (simp add: harness_init_def one_started_def)
  with r1 show ?thesis by (rule reachable.step)
qed

text \<open>
  Claim C4, on the harness without totals. Its closure has no early return in
  the error branch, so with debug output on a worker whose authentication fails
  goes on to print \<^verbatim>\<open>res.Username\<close> with \<^verbatim>\<open>res\<close> nil: with one slot and an
  identity service that rejects the credentials, the harness reaches a state in
  which the process has panicked.
\<close>

theorem plain_harness_debug_failure_panics:
  "OpenStackEC2Auth rejected =
     (None, Some (OtherError ''gophercloud.ErrDefault401'' ''Authentication failed'')) \<and>
   reachable (auth_plain debug_on False) report_plain 1 one_crashed \<and>
   fate one_crashed = Some Panicked"
proof -
  let ?R = "reachable (auth_plain debug_on False) report_plain 1"
  let ?S = "harness_step (auth_plain debug_on False) report_plain 1"
  let ?e = "OtherError ''gophercloud.ErrDefault401'' ''Authentication failed''"
  let ?w1 = "one_started\<lparr>workers := [W_Auth], ops := 1\<rparr>"
  let ?w2 = "one_started\<lparr>workers := [W_Failed None ?e], ops := 1\<rparr>"
  let ?w3 = "one_started\<lparr>workers := [W_Ok None], ops := 1, fps := 1\<rparr>"
  have o: "OpenStackEC2Auth rejected = (None, Some ?e)"
    by (simp add: OpenStackEC2Auth_def rejected_def)
  have "?S one_started ?w1"
    using harness_step.work [where h = one_started and i = 0 and pc = W_Auth
        and h' = "one_started\<lparr>ops := 1\<rparr>" and worker = "auth_plain debug_on False"
        and cr = rejected and rep = report_plain and threads = 1]
    by (simp add: one_started_def)
  with reachable_one_started_plain have r1: "?R ?w1" by (rule reachable.step)
  have "?S ?w1 ?w2"
    using harness_step.work [where h = ?w1 and i = 0 and pc = "W_Failed None ?e"
        and h' = ?w1 and worker = "auth_plain debug_on False"
        and cr = rejected and rep = report_plain and threads = 1]
    by (simp add: one_started_def o)
  with r1 have r2: "?R ?w2" by (rule reachable.step)
  have "?S ?w2 ?w3"
    using harness_step.work [where h = ?w2 and i = 0 and pc = "W_Ok None"
        and h' = "?w2\<lparr>fps := 1\<rparr>" and worker = "auth_plain debug_on False"
        and cr = rejected and rep = report_plain and threads = 1]
    by (simp add: one_started_def)
  with r2 have r3: "?R ?w3" by (rule reachable.step)
  have "?S ?w3 one_crashed"
    using harness_step.work_panic [where h = ?w3 and i = 0
        and h' = ?w3 and worker = "auth_plain debug_on False"
        and cr = rejected and rep = report_plain and threads = 1]
    by (simp add: one_started_def one_crashed_def auth_tail_def debug_on_def)
  with r3 have "?R one_crashed" by (rule reachable.step)
  then show ?thesis using o by (simp add: one_crashed_def)
qed

section \<open>Properties of the redactor\<close>

subsection \<open>Fields left alone\<close>

lemma framesI:
  assumes "\<And>m p. (\<And>s. s \<in> S \<Longrightarrow> \<not> prefix s p \<and> \<not> prefix p s) \<Longrightarrow>
     get_path p (JObject (f m)) = get_path p (JObject m)"
  shows "frames S f"
  using assms unfolding frames_def by blast

lemma framesD:
  assumes "frames S f" and "\<And>s. s \<in> S \<Longrightarrow> \<not> prefix s p \<and> \<not> prefix p s"
  shows "get_path p (JObject (f m)) = get_path p (JObject m)"
  using assms unfolding frames_def by blast

lemma frames_mono: "frames S f \<Longrightarrow> S \<subseteq> T \<Longrightarrow> frames T f"
  unfolding frames_def by blast

lemma frames_id: "frames S (\<lambda>m. m)"
  unfolding frames_def by simp

lemma frames_comp:
  assumes "frames S f" and "frames S g"
  shows "frames S (\<lambda>m. g (f m))"
  using assms unfolding frames_def by simp


lemma frames_if:
  assumes "frames S f" and "frames S g"
  shows "frames S (\<lambda>m. if c m then f m else g m)"
  using assms unfolding frames_def by simp

lemma frames_update: "frames {[k]} (AList.update k v)"
proof (rule framesI)
  fix m p
  assume "\<And>s. s \<in> {[k]} \<Longrightarrow> \<not> prefix s p \<and> \<not> prefix p s"
  then have np: "\<not> prefix [k] p" and nq: "\<not> prefix p [k]" by simp_all
  from nq obtain k' ps where p: "p = k' # ps" by (cases p) auto
  with np have "k' \<noteq> k" by simp
  then show "get_path p (JObject (AList.update k v m)) = get_path p (JObject m)"
    using p by (simp add: update_conv')
qed

lemma frames_with_object:
  assumes f: "frames S f" and ne: "S \<noteq> {}"
  shows "frames ((#) k ` S) (with_object k f)"
proof (rule framesI)
  fix m p
  assume a: "\<And>s. s \<in> (#) k ` S \<Longrightarrow> \<not> prefix s p \<and> \<not> prefix p s"
  from ne obtain s0 where "s0 \<in> S" by blast
  with a [of "k # s0"] have "p \<noteq> []" by auto
  then obtain k' ps where p: "p = k' # ps" by (cases p) auto
  show "get_path p (JObject (with_object k f m)) = get_path p (JObject m)"
  proof (cases "as_object (map_of m k)")
    case None
    then show ?thesis by (simp add: with_object_def)
  next
    case (Some v)
    then have mk: "map_of m k = Some (JObject v)"
      by (cases "map_of m k" rule: as_object.cases) auto
    show ?thesis
    proof (cases "k' = k")
      case False
      then show ?thesis using p Some by (simp add: with_object_def update_conv')
    next
      case True
      have "\<not> prefix s ps \<and> \<not> prefix ps s" if "s \<in> S" for s
        using a [of "k # s"] that p True by simp
      with f have "get_path ps (JObject (f v)) = get_path ps (JObject v)"
        by (rule framesD)
      then show ?thesis using p True Some mk by (simp add: with_object_def update_conv')
    qed
  qed
qed

lemma frames_mask_if_present: "frames {[k]} (mask_if_present k)"
  unfolding mask_if_present_def by (intro frames_if frames_update frames_id)


lemma frames_with_object1:
  assumes "frames {s} f"
  shows "frames {k # s} (with_object k f)"
  using frames_with_object [OF assms, of k] by simp

lemma frames_insert: "frames {s} f \<Longrightarrow> s \<in> S \<Longrightarrow> frames S f"
  by (erule frames_mono) simp

lemma frames_mask_identity:
  "frames {[''password'', ''user'', ''password''], [''application_credential'', ''secret''],
     [''token'', ''id'']}
     (\<lambda>v. let w1 = with_object ''password''
                     (with_object ''user'' (AList.update ''password'' mask)) v;
               w2 = with_object ''application_credential'' (AList.update ''secret'' mask) w1
           in with_object ''token'' (AList.update ''id'' mask) w2)"
  (is "frames ?I _")
proof -
  have "frames {[''password'', ''user'', ''password'']}
      (with_object ''password'' (with_object ''user'' (AList.update ''password'' mask)))"
    by (intro frames_with_object1 frames_update)
  then have i1: "frames ?I
      (with_object ''password'' (with_object ''user'' (AList.update ''password'' mask)))"
    by (rule frames_insert) simp
  have "frames {[''application_credential'', ''secret'']}
      (with_object ''application_credential'' (AList.update ''secret'' mask))"
    by (intro frames_with_object1 frames_update)
  then have i2: "frames ?I (with_object ''application_credential'' (AList.update ''secret'' mask))"
    by (rule frames_insert) simp
  have "frames {[''token'', ''id'']} (with_object ''token'' (AList.update ''id'' mask))"
    by (intro frames_with_object1 frames_update)
  then have i3: "frames ?I (with_object ''token'' (AList.update ''id'' mask))"
    by (rule frames_insert) simp
  show ?thesis
    unfolding Let_def by (rule frames_comp [OF frames_comp [OF i1 i2] i3])
qed

lemma frames_mask_auth:
  "frames {[''auth'', ''passwordCredentials'', ''password''], [''auth'', ''token'', ''id''],
     [''auth'', ''identity'', ''password'', ''user'', ''password''],
     [''auth'', ''identity'', ''application_credential'', ''secret''],
     [''auth'', ''identity'', ''token'', ''id'']} mask_auth"
proof -
  let ?A = "{[''passwordCredentials'', ''password''], [''token'', ''id''],
    [''identity'', ''password'', ''user'', ''password''],
    [''identity'', ''application_credential'', ''secret''],
    [''identity'', ''token'', ''id'']}"
  have "frames {[''passwordCredentials'', ''password'']}
      (with_object ''passwordCredentials'' (AList.update ''password'' mask))"
    by (intro frames_with_object1 frames_update)
  then have a1: "frames ?A (with_object ''passwordCredentials'' (AList.update ''password'' mask))"
    by (rule frames_insert) simp
  have "frames {[''token'', ''id'']} (with_object ''token'' (AList.update ''id'' mask))"
    by (intro frames_with_object1 frames_update)
  then have a2: "frames ?A (with_object ''token'' (AList.update ''id'' mask))"
    by (rule frames_insert) simp
  have a3: "frames ?A (with_object ''identity''
      (\<lambda>v. let w1 = with_object ''password''
                     (with_object ''user'' (AList.update ''password'' mask)) v;
               w2 = with_object ''application_credential'' (AList.update ''secret'' mask) w1
           in with_object ''token'' (AList.update ''id'' mask) w2))"
    by (rule frames_mono [OF frames_with_object [OF frames_mask_identity, of "''identity''"]])
      simp_all
  have "frames ?A
     (\<lambda>v. with_object ''identity''
        (\<lambda>v. let w1 = with_object ''password''
                     (with_object ''user'' (AList.update ''password'' mask)) v;
               w2 = with_object ''application_credential'' (AList.update ''secret'' mask) w1
           in with_object ''token'' (AList.update ''id'' mask) w2)
        (with_object ''token'' (AList.update ''id'' mask)
           (with_object ''passwordCredentials'' (AList.update ''password'' mask) v)))"
    by (rule frames_comp [OF frames_comp [OF a1 a2] a3])
  from frames_with_object [OF this, of "''auth''"] show ?thesis
    unfolding mask_auth_def Let_def by simp
qed


lemma frames_mask_token: "frames {[''token'', ''catalog'']} mask_token"
  unfolding mask_token_def by (intro frames_with_object1 frames_mask_if_present)






















lemma as_object_Some: "as_object v = Some m \<longleftrightarrow> v = Some (JObject m)"
  by (cases v rule: as_object.cases) auto



















subsection \<open>The access key\<close>

lemma prefix_replace_from:
  assumes "set p \<inter> set new = {}" and "new \<noteq> []"
  shows "prefix p (replace_from s old new) \<Longrightarrow> prefix p s"
  using assms
proof (induction s old new arbitrary: p rule: replace_from.induct)
  case (1 old new)
  then show ?case by simp
next
  case (2 c s old new)
  show ?case
  proof (cases "old \<noteq> [] \<and> prefix old (c # s)")
    case True
    with "2.prems" have "prefix p (new @ replace_from (drop (length old) (c # s)) old new)"
      by simp
    with "2.prems"(2,3) have "p = []" by (cases p; cases new) auto
    then show ?thesis by simp
  next
    case False
    with "2.prems" have pp: "prefix p (c # replace_from s old new)" by auto
    show ?thesis
    proof (cases p)
      case Nil
      then show ?thesis by simp
    next
      case (Cons x xs)
      with pp have "x = c" and "prefix xs (replace_from s old new)" by simp_all
      moreover have "set xs \<inter> set new = {}" using "2.prems"(2) Cons by auto
      ultimately show ?thesis using "2.IH"(2) [OF False] "2.prems"(3) Cons by simp
    qed
  qed
qed

lemma Contains_append_disjoint:
  assumes "old \<noteq> []" and "set old \<inter> set new = {}"
  shows "Contains (new @ s) old = Contains s old"
  using assms by (induction new) (auto simp: neq_Nil_conv)

lemma replace_from_no_occurrence:
  assumes "old \<noteq> []" and "set old \<inter> set new = {}" and "new \<noteq> []"
  shows "\<not> Contains (replace_from s old new) old"
  using assms
proof (induction s old new rule: replace_from.induct)
  case (1 old new)
  then show ?case by simp
next
  case (2 c s old new)
  show ?case
  proof (cases "prefix old (c # s)")
    case True
    with "2.prems" "2.IH"(1)
    have "\<not> Contains (replace_from (drop (length old) (c # s)) old new) old"
      by simp
    then show ?thesis
      using True "2.prems" by (simp add: Contains_append_disjoint del: Contains.simps)
  next
    case False
    then have r: "replace_from (c # s) old new = c # replace_from s old new" by simp
    have "\<not> prefix old (c # replace_from s old new)"
    proof
      assume "prefix old (c # replace_from s old new)"
      then have "prefix old (replace_from (c # s) old new)" using r by simp
      then have "prefix old (c # s)"
        using "2.prems"(2,3) by (rule prefix_replace_from [rotated 2])
      with False show False by simp
    qed
    moreover have "\<not> Contains (replace_from s old new) old"
      using "2.IH"(2) False "2.prems" by simp
    ultimately show ?thesis using r by simp
  qed
qed

lemma Replace_no_occurrence:
  assumes "old \<noteq> []" and "CHR ''*'' \<notin> set old"
  shows "\<not> Contains (Replace s old ''***'') old \<and> \<not> Contains ''***'' old"
proof -
  have d: "set old \<inter> set ''***'' = {}" using assms(2) by simp
  have "old \<noteq> ''***''" using assms(2) by auto
  then have "Replace s old ''***'' = replace_from s old ''***''"
    using assms(1) by (simp add: Replace_def)
  moreover have "\<not> Contains ''***'' old"
    using Contains_append_disjoint [OF assms(1) d, of "[]"] assms(1) by simp
  ultimately show ?thesis using replace_from_no_occurrence [OF assms(1) d] by simp
qed

lemma get_path_key: "get_path [k] (JObject m) = map_of m k"
  by (simp split: option.split)

lemma credentials_after_mask_auth: "map_of (mask_auth data) ''credentials'' = map_of data ''credentials''"
proof -
  have "get_path [''credentials''] (JObject (mask_auth data)) = get_path [''credentials''] (JObject data)"
    by (rule framesD [OF frames_mask_auth]) auto
  then show ?thesis by (simp only: get_path_key)
qed

lemma mask_credentials_access:
  assumes "map_of m ''credentials'' = Some (JObject cred)"
    and "map_of cred ''access'' = Some (JString X)"
    and "map_of cred ''headers'' = Some (JObject hs)"
    and "map_of hs ''Authorization'' = Some (JString s)"
  shows "get_path [''credentials'', ''access''] (JObject (mask_credentials m)) = Some mask"
    and "get_path [''credentials'', ''headers'', ''Authorization''] (JObject (mask_credentials m)) =
      Some (JString (Replace s X ''***''))"
  using assms
  by (simp_all add: mask_credentials_def with_object_def mask_if_present_def
      mask_authorization_def update_conv' Let_def)

text \<open>
  Claim C1, as the code has it. When the top level holds \<^verbatim>\<open>credentials.access\<close>
  with the string \<open>X\<close> and \<^verbatim>\<open>credentials.headers.Authorization\<close> with the string
  \<open>s\<close>, the document that \<^verbatim>\<open>FormatJSON\<close> hands to \<^verbatim>\<open>json.MarshalIndent\<close>, and
  whose print it returns, holds the mask token at \<^verbatim>\<open>credentials.access\<close> and
  \<^verbatim>\<open>strings.Replace(s, X, "***", -1)\<close> at \<^verbatim>\<open>Authorization\<close>; and when \<open>X\<close> is not
  empty and has no asterisk in it, neither of these two strings contains \<open>X\<close>.
\<close>

theorem access_key_masked:
  assumes "map_of data ''credentials'' = Some (JObject cred)"
    and "map_of cred ''access'' = Some (JString X)"
    and "map_of cred ''headers'' = Some (JObject hs)"
    and "map_of hs ''Authorization'' = Some (JString s)"
  shows "get_path [''credentials'', ''access''] (redact (JObject data)) = Some (JString ''***'') \<and>
    get_path [''credentials'', ''headers'', ''Authorization''] (redact (JObject data)) =
      Some (JString (Replace s X ''***'')) \<and>
    (X \<noteq> [] \<and> CHR ''*'' \<notin> set X \<longrightarrow>
       \<not> Contains (Replace s X ''***'') X \<and> \<not> Contains ''***'' X) \<and>
    format_parsed marshalIndent raw (JObject data) =
      (case marshalIndent (redact (JObject data)) of
         Inl e \<Rightarrow> (raw, Some (UnableToRemarshal e))
       | Inr text \<Rightarrow> (text, None)) \<and>
    (Unmarshal J raw = Inr (JObject data) \<longrightarrow>
       FormatJSON J raw =
         (case MarshalIndent J (redact (JObject data)) of
            Inl e \<Rightarrow> (raw, Some (UnableToRemarshal e))
          | Inr text \<Rightarrow> (text, None)))"
proof -
  let ?m = "mask_auth data"
  have c: "map_of ?m ''credentials'' = Some (JObject cred)"
    using assms(1) by (simp add: credentials_after_mask_auth)
  note mc = mask_credentials_access [OF c assms(2,3,4)]
  have t1: "get_path [''credentials'', ''access''] (JObject (mask_token (mask_credentials ?m))) =
      get_path [''credentials'', ''access''] (JObject (mask_credentials ?m))"
    by (rule framesD [OF frames_mask_token]) auto
  have t2: "get_path [''credentials'', ''headers'', ''Authorization'']
        (JObject (mask_token (mask_credentials ?m))) =
      get_path [''credentials'', ''headers'', ''Authorization''] (JObject (mask_credentials ?m))"
    by (rule framesD [OF frames_mask_token]) auto
  have vals: "get_path [''credentials'', ''access''] (redact (JObject data)) =
      Some (JString ''***'') \<and>
    get_path [''credentials'', ''headers'', ''Authorization''] (redact (JObject data)) =
      Some (JString (Replace s X ''***'')) \<and>
    (X \<noteq> [] \<and> CHR ''*'' \<notin> set X \<longrightarrow>
       \<not> Contains (Replace s X ''***'') X \<and> \<not> Contains ''***'' X)"
    using t1 t2 mc Replace_no_occurrence [of X s]
    by (simp add: mask_known_fields_def mask_def del: get_path.simps)
  have pr: "format_parsed marshalIndent raw (JObject data) =
      (case marshalIndent (redact (JObject data)) of
         Inl e \<Rightarrow> (raw, Some (UnableToRemarshal e))
       | Inr text \<Rightarrow> (text, None))" for marshalIndent
    by (simp add: format_parsed_def)
  have "Unmarshal J raw = Inr (JObject data) \<longrightarrow>
       FormatJSON J raw =
         (case MarshalIndent J (redact (JObject data)) of
            Inl e \<Rightarrow> (raw, Some (UnableToRemarshal e))
          | Inr text \<Rightarrow> (text, None))"
    using pr [of "MarshalIndent J"] by (simp add: FormatJSON_def)
  with vals pr show ?thesis by (intro conjI) simp_all
qed

theorem access_key_masked_witness:
  "Unmarshal sample_json (pretty 0 (JObject signed_request)) = Inr (JObject signed_request) \<and>
   FormatJSON sample_json (pretty 0 (JObject signed_request)) =
     (pretty 0 (redact (JObject signed_request)), None) \<and>
   get_path [''credentials'', ''access''] (redact (JObject signed_request)) = Some (JString ''***'') \<and>
   get_path [''credentials'', ''headers'', ''Authorization''] (redact (JObject signed_request)) =
     Some (JString ''Credential=***/x'') \<and>
   \<not> Contains ''Credential=***/x'' ''AK'' \<and>
   Contains (fst (FormatJSON sample_json (pretty 0 (JObject signed_request)))) ''Credential=***/x''"
proof -
  have r: "Replace ''Credential=AK/x'' ''AK'' ''***'' = ''Credential=***/x''"
    by code_simp
  have u: "Unmarshal sample_json (pretty 0 (JObject signed_request)) = Inr (JObject signed_request)"
    by (simp add: sample_json_def)
  have m: "MarshalIndent sample_json = plain_MarshalIndent"
    by (simp add: sample_json_def)
  have p: "Contains (pretty 0 (redact (JObject signed_request))) ''Credential=***/x''"
    by code_simp
  have "''AK'' \<noteq> [] \<and> CHR ''*'' \<notin> set ''AK''" by simp
  then show ?thesis
    using access_key_masked [of signed_request
        "[(''access'', JString ''AK''),
          (''headers'', JObject [(''Authorization'', JString ''Credential=AK/x'')]),
          (''params'', JObject [(''AWSAccessKeyId'', JString ''AK'')])]"
        "''AK''" "[(''Authorization'', JString ''Credential=AK/x'')]" "''Credential=AK/x''"
        plain_MarshalIndent "pretty 0 (JObject signed_request)" sample_json] u p
    by (simp add: signed_request_def r m plain_MarshalIndent_def
        del: get_path.simps redact.simps pretty.simps Contains.simps)
qed

text \<open>
  The claim as stated fails: the token request \<open>signed_request\<close> has the access
  key \<^verbatim>\<open>AK\<close> at \<^verbatim>\<open>credentials.access\<close>, inside \<^verbatim>\<open>Authorization\<close> and in its
  parameters; the parameters are not masked, so the text \<^verbatim>\<open>FormatJSON\<close> returns
  still contains \<^verbatim>\<open>AK\<close>.
\<close>

theorem access_key_counterexample:
  "get_path [''credentials'', ''access''] (JObject signed_request) = Some (JString ''AK'') \<and>
   get_path [''credentials'', ''headers'', ''Authorization''] (JObject signed_request) =
     Some (JString ''Credential=AK/x'') \<and>
   Contains ''Credential=AK/x'' ''AK'' \<and>
   FormatJSON sample_json (pretty 0 (JObject signed_request)) =
     (pretty 0 (JObject
        [(''credentials'', JObject
           [(''access'', JString ''***''),
            (''headers'', JObject [(''Authorization'', JString ''Credential=***/x'')]),
            (''params'', JObject [(''AWSAccessKeyId'', JString ''AK'')])])]), None) \<and>
   Contains (fst (FormatJSON sample_json (pretty 0 (JObject signed_request)))) ''AK''"
proof -
  have 1: "FormatJSON sample_json (pretty 0 (JObject signed_request)) =
     (pretty 0 (JObject
        [(''credentials'', JObject
           [(''access'', JString ''***''),
            (''headers'', JObject [(''Authorization'', JString ''Credential=***/x'')]),
            (''params'', JObject [(''AWSAccessKeyId'', JString ''AK'')])])]), None)"
    by code_simp
  have 2: "Contains (fst (FormatJSON sample_json (pretty 0 (JObject signed_request)))) ''AK''"
    by code_simp
  have 3: "Contains ''Credential=AK/x'' ''AK''" by code_simp
  have 4: "get_path [''credentials'', ''access''] (JObject signed_request) = Some (JString ''AK'') \<and>
   get_path [''credentials'', ''headers'', ''Authorization''] (JObject signed_request) =
     Some (JString ''Credential=AK/x'')"
    by (simp add: signed_request_def)
  from 1 2 3 4 show ?thesis by (intro conjI) simp_all
qed

section \<open>Properties of the instrumented transport\<close>

subsection \<open>Headers\<close>

lemma hidden_line:
  assumes "(name, data) \<in> set hs"
  shows "(if ToLower name \<in> set (case maskHeaders rt of None \<Rightarrow> defaultSensitiveHeaders | Some v \<Rightarrow> v)
          then name @ '': ***'' else name @ '': '' @ Join data '' '')
         \<in> set (hideSensitiveHeadersData rt hs)"
  using assms by (force simp: hideSensitiveHeadersData_def Let_def)

text \<open>
  A header is masked exactly when its name in lower case is an entry of the
  sensitive set as that set is stored, and the lines are sorted before they are
  joined. With the default set, whose entries are in lower case, this masks the
  header whatever the case of its name.
\<close>

theorem sensitive_headers_masked:
  assumes "(name, data) \<in> set hs"
    and "ToLower name \<in> set (case maskHeaders rt of None \<Rightarrow> defaultSensitiveHeaders | Some v \<Rightarrow> v)"
  shows "name @ '': ***'' \<in> set (sort (hideSensitiveHeadersData rt hs)) \<and>
    sorted (sort (hideSensitiveHeadersData rt hs)) \<and>
    formatHeaders rt hs separator = Join (sort (hideSensitiveHeadersData rt hs)) separator"
  using hidden_line [OF assms(1), of rt] assms(2) by (simp add: formatHeaders_def)

theorem sensitive_headers_masked_witness:
  "ToLower ''X-Auth-Token'' \<in> set defaultSensitiveHeaders \<and>
   formatHeaders silent_transport
     [(''X-Auth-Token'', [''secret'']), (''Accept'', [''application/json''])] [CHR 0x0A] =
   ''Accept: application/json'' @ [CHR 0x0A] @ ''X-Auth-Token: ***''"
proof -
  have "ToLower ''X-Auth-Token'' \<in> set defaultSensitiveHeaders" by code_simp
  moreover have "formatHeaders silent_transport
     [(''X-Auth-Token'', [''secret'']), (''Accept'', [''application/json''])] [CHR 0x0A] =
   ''Accept: application/json'' @ [CHR 0x0A] @ ''X-Auth-Token: ***''"
    by code_simp
  ultimately show ?thesis
    using sensitive_headers_masked [of "''X-Auth-Token''" "[''secret'']"
        "[(''X-Auth-Token'', [''secret'']), (''Accept'', [''application/json''])]" silent_transport]
    by (simp add: silent_transport_def)
qed

text \<open>
  Claim C6, at a set installed with \<^verbatim>\<open>SetSensitiveHeaders\<close>. The entries are
  stored as they are given, the name of the header is put in lower case before
  the lookup: with the entry \<^verbatim>\<open>X-Auth-Token\<close> installed, the header
  \<^verbatim>\<open>X-Auth-Token\<close> is printed with its value.
\<close>

theorem installed_header_not_masked:
  "formatHeaders (SetSensitiveHeaders silent_transport [''X-Auth-Token''])
     [(''X-Auth-Token'', [''secret''])] [CHR 0x0A] = ''X-Auth-Token: secret''"
  by code_simp

subsection \<open>Bodies\<close>

lemma io_Copy_rest: "io_Copy evs = (bs, rest, None) \<Longrightarrow> rest = []"
  by (induction evs arbitrary: bs rule: io_Copy.induct) (auto split: prod.splits)

lemma contents_iff: "contents r = Some bs \<longleftrightarrow> io_Copy (pending r) = (bs, [], None)"
  using io_Copy_rest [of "pending r"]
  by (auto simp: contents_def split: prod.splits option.splits)

lemma contents_NopCloser: "contents (NopCloser bs) = Some bs"
  by (simp add: contents_def NopCloser_def)

lemma logRequest_drained:
  assumes "json_request ct" and "contents original = Some bs"
  shows "logRequest J rt original ct =
    (Inr (NopCloser bs), \<lparr>pending = [], closed = True\<rparr>,
     logs rt ((case snd (formatJSON J rt bs) of
                 Some e \<Rightarrow> [RequestPrintf (Error_line e)] | None \<Rightarrow> [])
              @ [RequestPrintf (Body_line (fst (formatJSON J rt bs)))]))"
  using assms by (simp add: logRequest_def contents_iff split: prod.splits)

lemma logResponse_drained:
  assumes "json_response ct" and "contents original = Some bs"
  shows "logResponse J rt original ct =
    (Inr (NopCloser bs), \<lparr>pending = [], closed = True\<rparr>,
     logs rt ((case snd (formatJSON J rt bs) of
                 Some e \<Rightarrow> [ResponsePrintf (Error_line e)] | None \<Rightarrow> [])
              @ (if fst (formatJSON J rt bs) \<noteq> []
                 then [ResponsePrintf (Body_line (fst (formatJSON J rt bs)))] else [])))"
  using assms by (simp add: logResponse_def contents_iff split: prod.splits)

lemma logRequest_read_fails:
  assumes "json_request ct" and "io_Copy (pending original) = (bs, rest, Some e)"
  shows "logRequest J rt original ct = (Inl e, \<lparr>pending = rest, closed = True\<rparr>, [])"
  using assms by (simp add: logRequest_def)

lemma logResponse_read_fails:
  assumes "json_response ct" and "io_Copy (pending original) = (bs, rest, Some e)"
  shows "logResponse J rt original ct = (Inl e, \<lparr>pending = rest, closed = True\<rparr>, [])"
  using assms by (simp add: logResponse_def)

lemma Body_inject: "Body (inject rt request) = Body request"
  by (simp add: inject_def split: option.split)

lemma RoundTrip_request_read_fails:
  assumes "Logger rt \<noteq> None" and "Body request = Some original"
    and "json_request (Get (Header (inject rt request)) ''Content-Type'')"
    and "io_Copy (pending original) = (bs, rest, Some e)"
  shows "Response (RoundTrip J rt request) = None \<and> Error (RoundTrip J rt request) = Some e \<and>
    Calls (RoundTrip J rt request) = 0"
  using assms logRequest_read_fails [OF assms(3,4), of J rt]
  by (simp add: RoundTrip_def Let_def Body_inject)

lemma RoundTrip_request_drained:
  assumes "Logger rt \<noteq> None" and "Body request = Some original"
    and "json_request (Get (Header (inject rt request)) ''Content-Type'')"
    and "contents original = Some bs"
  shows "RoundTrip J rt request =
    delegate J rt ((inject rt request)\<lparr>Body := Some (NopCloser bs)\<rparr>)
      (logs rt
         [RequestPrintf (URL_line (Method (inject rt request)) (URL (inject rt request))),
          RequestPrintf (Headers_line (formatHeaders rt (Header (inject rt request)) [CHR 0x0A]))]
       @ logs rt ((case snd (formatJSON J rt bs) of
                     Some e \<Rightarrow> [RequestPrintf (Error_line e)] | None \<Rightarrow> [])
                  @ [RequestPrintf (Body_line (fst (formatJSON J rt bs)))]))"
  using assms logRequest_drained [OF assms(3,4), of J rt]
  by (simp add: RoundTrip_def Let_def Body_inject)

lemma retry_loop_Some:
  "retry_loop rt ort req retry calls (Some r, e) lg = ((Some r, e), calls, lg)"
  by simp

lemma delegate_response_read_fails:
  assumes "Logger rt \<noteq> None" and "Rt rt = Some ort" and "ort 0 req = (Some r, e0)"
    and "json_response (Get (RespHeader r) ''Content-Type'')"
    and "io_Copy (pending (RespBody r)) = (bs, rest, Some e)"
  shows "Error (delegate J rt req lg) = Some e \<and> ResponseBody (delegate J rt req lg) = None"
  using assms logResponse_read_fails [OF assms(4,5), of J rt]
  by (simp add: delegate_def Let_def del: retry_loop.simps add: retry_loop_Some)

lemma delegate_response_drained:
  assumes "Logger rt \<noteq> None" and "Rt rt = Some ort" and "ort 0 req = (Some r, e0)"
    and "json_response (Get (RespHeader r) ''Content-Type'')"
    and "contents (RespBody r) = Some bs"
  shows "ResponseBody (delegate J rt req lg) = Some (NopCloser bs) \<and>
    Error (delegate J rt req lg) = None"
  using assms logResponse_drained [OF assms(4,5), of J rt]
  by (simp add: delegate_def Let_def del: retry_loop.simps add: retry_loop_Some)

text \<open>
  Claim C9. For a JSON content type, \<^verbatim>\<open>logRequest\<close> and \<^verbatim>\<open>logResponse\<close> read
  the original stream to its end, leave it closed, and return a new stream over
  the very bytes read; \<^verbatim>\<open>RoundTrip\<close> hands this stream to the wrapped transport
  and to its caller. When a read fails they return the error of the read, and
  \<^verbatim>\<open>RoundTrip\<close> returns it: for the request without calling the wrapped
  transport, for the response with no body.
\<close>

theorem body_logger_preserves_body:
  "(json_request ct \<and> contents original = Some bs \<longrightarrow>
      fst (logRequest J rt original ct) = Inr (NopCloser bs) \<and>
      fst (snd (logRequest J rt original ct)) = \<lparr>pending = [], closed = True\<rparr> \<and>
      contents (NopCloser bs) = Some bs) \<and>
   (json_response ct \<and> contents original = Some bs \<longrightarrow>
      fst (logResponse J rt original ct) = Inr (NopCloser bs) \<and>
      fst (snd (logResponse J rt original ct)) = \<lparr>pending = [], closed = True\<rparr>) \<and>
   (json_request ct \<and> io_Copy (pending original) = (bs, rest, Some e) \<longrightarrow>
      logRequest J rt original ct = (Inl e, \<lparr>pending = rest, closed = True\<rparr>, [])) \<and>
   (json_response ct \<and> io_Copy (pending original) = (bs, rest, Some e) \<longrightarrow>
      logResponse J rt original ct = (Inl e, \<lparr>pending = rest, closed = True\<rparr>, [])) \<and>
   (Logger rt \<noteq> None \<and> Body request = Some original \<and>
    json_request (Get (Header (inject rt request)) ''Content-Type'') \<and>
    contents original = Some bs \<longrightarrow>
      (\<exists>lg. RoundTrip J rt request =
         delegate J rt ((inject rt request)\<lparr>Body := Some (NopCloser bs)\<rparr>) lg)) \<and>
   (Logger rt \<noteq> None \<and> Body request = Some original \<and>
    json_request (Get (Header (inject rt request)) ''Content-Type'') \<and>
    io_Copy (pending original) = (bs, rest, Some e) \<longrightarrow>
      Response (RoundTrip J rt request) = None \<and> Error (RoundTrip J rt request) = Some e \<and>
      Calls (RoundTrip J rt request) = 0) \<and>
   (Logger rt \<noteq> None \<and> Rt rt = Some ort \<and> ort 0 req = (Some r, e0) \<and>
    json_response (Get (RespHeader r) ''Content-Type'') \<and>
    contents (RespBody r) = Some bs \<longrightarrow>
      ResponseBody (delegate J rt req lg) = Some (NopCloser bs) \<and>
      Error (delegate J rt req lg) = None) \<and>
   (Logger rt \<noteq> None \<and> Rt rt = Some ort \<and> ort 0 req = (Some r, e0) \<and>
    json_response (Get (RespHeader r) ''Content-Type'') \<and>
    io_Copy (pending (RespBody r)) = (bs, rest, Some e) \<longrightarrow>
      Error (delegate J rt req lg) = Some e \<and> ResponseBody (delegate J rt req lg) = None)"
proof -
  have 1: "json_request ct \<and> contents original = Some bs \<longrightarrow>
      fst (logRequest J rt original ct) = Inr (NopCloser bs) \<and>
      fst (snd (logRequest J rt original ct)) = \<lparr>pending = [], closed = True\<rparr> \<and>
      contents (NopCloser bs) = Some bs"
    by (simp add: logRequest_drained contents_NopCloser)
  have 2: "json_response ct \<and> contents original = Some bs \<longrightarrow>
      fst (logResponse J rt original ct) = Inr (NopCloser bs) \<and>
      fst (snd (logResponse J rt original ct)) = \<lparr>pending = [], closed = True\<rparr>"
    by (simp add: logResponse_drained)
  have 3: "json_request ct \<and> io_Copy (pending original) = (bs, rest, Some e) \<longrightarrow>
      logRequest J rt original ct = (Inl e, \<lparr>pending = rest, closed = True\<rparr>, [])"
    using logRequest_read_fails by blast
  have 4: "json_response ct \<and> io_Copy (pending original) = (bs, rest, Some e) \<longrightarrow>
      logResponse J rt original ct = (Inl e, \<lparr>pending = rest, closed = True\<rparr>, [])"
    using logResponse_read_fails by blast
  have 5: "Logger rt \<noteq> None \<and> Body request = Some original \<and>
    json_request (Get (Header (inject rt request)) ''Content-Type'') \<and>
    contents original = Some bs \<longrightarrow>
      (\<exists>lg. RoundTrip J rt request =
         delegate J rt ((inject rt request)\<lparr>Body := Some (NopCloser bs)\<rparr>) lg)"
    using RoundTrip_request_drained by blast
  have 6: "Logger rt \<noteq> None \<and> Body request = Some original \<and>
    json_request (Get (Header (inject rt request)) ''Content-Type'') \<and>
    io_Copy (pending original) = (bs, rest, Some e) \<longrightarrow>
      Response (RoundTrip J rt request) = None \<and> Error (RoundTrip J rt request) = Some e \<and>
      Calls (RoundTrip J rt request) = 0"
    using RoundTrip_request_read_fails by blast
  have 7: "Logger rt \<noteq> None \<and> Rt rt = Some ort \<and> ort 0 req = (Some r, e0) \<and>
    json_response (Get (RespHeader r) ''Content-Type'') \<and>
    contents (RespBody r) = Some bs \<longrightarrow>
      ResponseBody (delegate J rt req lg) = Some (NopCloser bs) \<and>
      Error (delegate J rt req lg) = None"
    using delegate_response_drained by blast
  have 8: "Logger rt \<noteq> None \<and> Rt rt = Some ort \<and> ort 0 req = (Some r, e0) \<and>
    json_response (Get (RespHeader r) ''Content-Type'') \<and>
    io_Copy (pending (RespBody r)) = (bs, rest, Some e) \<longrightarrow>
      Error (delegate J rt req lg) = Some e \<and> ResponseBody (delegate J rt req lg) = None"
    using delegate_response_read_fails by blast
  from 1 2 3 4 5 6 7 8 show ?thesis by (intro conjI)
qed

theorem body_logger_preserves_body_witness:
  "json_request ''application/json'' \<and> contents chunked = Some ''[1,2]'' \<and>
   fst (logRequest sample_json logging_transport chunked ''application/json'') =
     Inr (NopCloser ''[1,2]'') \<and>
   contents (NopCloser ''[1,2]'') = Some ''[1,2]'' \<and>
   io_Copy (pending broken) = (''[1,'', [], Some (Underlying ''connection reset'')) \<and>
   Error (RoundTrip sample_json logging_transport post_request) =
     Some (Underlying ''connection reset'') \<and>
   Calls (RoundTrip sample_json logging_transport post_request) = 0"
proof -
  have j: "json_request ''application/json''" by (simp add: json_request_def)
  have c: "contents chunked = Some ''[1,2]''" by (simp add: contents_def chunked_def)
  have b: "io_Copy (pending broken) = (''[1,'', [], Some (Underlying ''connection reset''))"
    by (simp add: broken_def)
  have l: "Logger logging_transport \<noteq> None"
    by (simp add: logging_transport_def silent_transport_def)
  have p: "Body post_request = Some broken" by (simp add: post_request_def)
  have h: "json_request (Get (Header (inject logging_transport post_request)) ''Content-Type'')"
    by (simp add: inject_def logging_transport_def silent_transport_def post_request_def Get_def
        json_request_def)
  show ?thesis
    using j c b l p h
      body_logger_preserves_body [of "''application/json''" chunked "''[1,2]''" sample_json
        logging_transport]
      body_logger_preserves_body [of _ broken "''[1,''" sample_json logging_transport
        "[]" "Underlying ''connection reset''" post_request]
    by simp
qed

lemma FormatJSON_unparsed:
  "Unmarshal J raw = Inl e \<Longrightarrow> FormatJSON J raw = (raw, Some (UnableToParse e))"
  by (simp add: FormatJSON_def)

text \<open>
  Claim C7. When the library rejects the text, \<^verbatim>\<open>FormatJSON\<close> returns the text as
  it came, with a parse error. Its callers \<^verbatim>\<open>logRequest\<close> and \<^verbatim>\<open>logResponse\<close>
  (with the default formatter) then log the error and the raw text, and return a
  stream over the raw text and no error, so the round-trip goes on.
\<close>

theorem malformed_json_kept:
  assumes "Unmarshal J raw = Inl e"
  shows "FormatJSON J raw = (raw, Some (UnableToParse e)) \<and>
    (FormatJSON_field rt = None \<and> json_request ct \<and> contents original = Some raw \<longrightarrow>
       logRequest J rt original ct =
         (Inr (NopCloser raw), \<lparr>pending = [], closed = True\<rparr>,
          logs rt [RequestPrintf (Error_line (UnableToParse e)), RequestPrintf (Body_line raw)])) \<and>
    (FormatJSON_field rt = None \<and> json_response ct \<and> contents original = Some raw \<longrightarrow>
       logResponse J rt original ct =
         (Inr (NopCloser raw), \<lparr>pending = [], closed = True\<rparr>,
          logs rt (ResponsePrintf (Error_line (UnableToParse e))
                   # (if raw \<noteq> [] then [ResponsePrintf (Body_line raw)] else []))))"
  using assms
  by (simp add: FormatJSON_unparsed logRequest_drained logResponse_drained formatJSON_def)

theorem malformed_json_kept_witness:
  "Unmarshal sample_json ''[1,2'' = Inl ''invalid character'' \<and>
   FormatJSON sample_json ''[1,2'' = (''[1,2'', Some (UnableToParse ''invalid character'')) \<and>
   logRequest sample_json logging_transport \<lparr>pending = [Data ''[1,2''], closed = False\<rparr>
       ''application/json'' =
     (Inr (NopCloser ''[1,2''), \<lparr>pending = [], closed = True\<rparr>,
      [RequestPrintf (Error_line (UnableToParse ''invalid character'')),
       RequestPrintf (Body_line ''[1,2'')])"
proof -
  have u: "Unmarshal sample_json ''[1,2'' = Inl ''invalid character''"
    by code_simp
  have f: "FormatJSON_field logging_transport = None"
    by (simp add: logging_transport_def silent_transport_def)
  have j: "json_request ''application/json''" by (simp add: json_request_def)
  have c: "contents \<lparr>pending = [Data ''[1,2''], closed = False\<rparr> = Some ''[1,2''"
    by (simp add: contents_def)
  show ?thesis
    using malformed_json_kept [OF u, of logging_transport "''application/json''"
        "\<lparr>pending = [Data ''[1,2''], closed = False\<rparr>"] u f j c
    by (simp add: logs_def logging_transport_def silent_transport_def)
qed

subsection \<open>Retries\<close>

lemma logs_append: "logs rt (a @ b) = logs rt a @ logs rt b"
  by (simp add: logs_def split: option.split)















end
